theory Spec2Isabelle
  imports Main
begin

section \<open>JavaScript values\<close>

text \<open>
  The values that flow through \<^verbatim>\<open>src/uglify/index.js\<close>: options, tasks, the objects
  the minifier returns and the errors it throws, and what \<^verbatim>\<open>JSON.parse\<close> reads from
  the cache.  Numbers are restricted to integers.  An object is the list of its own
  enumerable properties, in insertion order, with distinct names; no object has a
  \<^verbatim>\<open>toJSON\<close> method.
\<close>

datatype prim = VUndefined | VNull | VBool bool | VNum int | VStr string

datatype jsval =
    Prim prim
  | Function string
  | RegExp string
  | Array "jsval list"
  | Object "(string \<times> jsval) list"

type_synonym props = "(string \<times> jsval) list"

abbreviation undefined_val :: jsval where
  "undefined_val \<equiv> Prim VUndefined"

abbreviation null_val :: jsval where
  "null_val \<equiv> Prim VNull"

text \<open>ToBoolean: what \<^verbatim>\<open>if (x)\<close>, \<^verbatim>\<open>!x\<close> and \<^verbatim>\<open>x ? a : b\<close> test.\<close>

fun truthy :: "jsval \<Rightarrow> bool" where
  "truthy (Prim VUndefined) = False"
| "truthy (Prim VNull) = False"
| "truthy (Prim (VBool b)) = b"
| "truthy (Prim (VNum n)) = (n \<noteq> 0)"
| "truthy (Prim (VStr s)) = (s \<noteq> [])"
| "truthy (Function f) = True"
| "truthy (RegExp r) = True"
| "truthy (Array xs) = True"
| "truthy (Object ps) = True"

text \<open>Property read \<^verbatim>\<open>o.k\<close> on an object: a missing property reads as undefined.\<close>

definition get_prop :: "props \<Rightarrow> string \<Rightarrow> jsval" where
  "get_prop ps k = (case map_of ps k of None \<Rightarrow> undefined_val | Some v \<Rightarrow> v)"

section \<open>JSON.stringify\<close>

text \<open>
  The text \<^verbatim>\<open>JSON.stringify\<close> produces is represented by the JSON document it
  denotes.  The result is \<open>None\<close> where JavaScript returns undefined.
\<close>

datatype json =
    JNull
  | JBool bool
  | JNum int
  | JStr string
  | JArr "json list"
  | JObj "(string \<times> json) list"

text \<open>
  A replacer function is called with a key and the value stored under it and answers
  with the value to serialise in its place.  The model covers replacers that answer
  with the value they were given (\<open>Same\<close>) or with a primitive (\<open>Swap\<close>; the primitive
  undefined drops the property).
\<close>

datatype answer = Same | Swap prim

type_synonym replacer = "string \<Rightarrow> jsval \<Rightarrow> answer"

text \<open>The decimal digits, and ToString of an array index.\<close>

definition digit_char :: "nat \<Rightarrow> char" where
  "digit_char n = ''0123456789'' ! n"

fun show_nat :: "nat \<Rightarrow> string" where
  "show_nat n = (if n < 10 then [digit_char n] else show_nat (n div 10) @ [digit_char (n mod 10)])"

declare show_nat.simps [simp del]

fun prim_json :: "prim \<Rightarrow> json option" where
  "prim_json VUndefined = None"
| "prim_json VNull = Some JNull"
| "prim_json (VBool b) = Some (JBool b)"
| "prim_json (VNum n) = Some (JNum n)"
| "prim_json (VStr s) = Some (JStr s)"

text \<open>
  SerializeJSONProperty, SerializeJSONArray and SerializeJSONObject of ECMA-262: the
  replacer is asked first; a function serialises to undefined, a regular expression
  (an object with no enumerable property) to the empty object; an undefined array
  element is written as null, an undefined property is left out.
\<close>

fun SerializeJSONProperty :: "replacer \<Rightarrow> string \<Rightarrow> jsval \<Rightarrow> json option"
  and SerializeJSONArray :: "replacer \<Rightarrow> nat \<Rightarrow> jsval list \<Rightarrow> json list"
  and SerializeJSONObject :: "replacer \<Rightarrow> props \<Rightarrow> (string \<times> json) list"
where
  "SerializeJSONProperty f k v =
     (case f k v of
        Swap p \<Rightarrow> prim_json p
      | Same \<Rightarrow>
          (case v of
             Prim p \<Rightarrow> prim_json p
           | Function src \<Rightarrow> None
           | RegExp src \<Rightarrow> Some (JObj [])
           | Array xs \<Rightarrow> Some (JArr (SerializeJSONArray f 0 xs))
           | Object ps \<Rightarrow> Some (JObj (SerializeJSONObject f ps))))"
| "SerializeJSONArray f i [] = []"
| "SerializeJSONArray f i (x # xs) =
     (case SerializeJSONProperty f (show_nat i) x of None \<Rightarrow> JNull | Some j \<Rightarrow> j)
       # SerializeJSONArray f (Suc i) xs"
| "SerializeJSONObject f [] = []"
| "SerializeJSONObject f ((k, x) # ps) =
     (case SerializeJSONProperty f k x of None \<Rightarrow> [] | Some j \<Rightarrow> [(k, j)])
       @ SerializeJSONObject f ps"

text \<open>\<^verbatim>\<open>JSON.stringify(value, replacer)\<close>: the value is the property \<^verbatim>\<open>""\<close> of a wrapper.\<close>

definition JSON_stringify :: "replacer \<Rightarrow> jsval \<Rightarrow> json option" where
  "JSON_stringify f v = SerializeJSONProperty f [] v"

text \<open>\<^verbatim>\<open>JSON.stringify(value)\<close>, without a replacer.\<close>

definition no_replacer :: replacer where
  "no_replacer k v = Same"

section \<open>Tasks and the modules the dispatcher imports\<close>

text \<open>
  A task is the object the plugin pushes for each file
  (\<^verbatim>\<open>tasks.push({ cacheKey, file, input, sourceMap, ... })\<close>).
\<close>

record task =
  cacheKey :: string
  task_file :: string
  input :: string
  sourceMap :: jsval
  inputSourceMap :: jsval
  commentsFile :: jsval
  extractComments :: jsval
  uglifyOptions :: jsval

text \<open>The task as the JavaScript object it is, with its properties in the order of the literal.\<close>

definition task_object :: "task \<Rightarrow> jsval" where
  "task_object t = Object
     [(''cacheKey'', Prim (VStr (cacheKey t))),
      (''file'', Prim (VStr (task_file t))),
      (''input'', Prim (VStr (input t))),
      (''sourceMap'', sourceMap t),
      (''inputSourceMap'', inputSourceMap t),
      (''commentsFile'', commentsFile t),
      (''extractComments'', extractComments t),
      (''uglifyOptions'', uglifyOptions t)]"

text \<open>
  What \<^verbatim>\<open>index.js\<close> imports, as parameters; their sources are not available here:
  \<^item> \<open>minify\<close> is \<^verbatim>\<open>./minify\<close>, the Compute Function: it returns an object (\<open>Inr\<close>) or
    throws an error object (\<open>Inl\<close>);
  \<^item> \<open>encode\<close> is the replacer of \<^verbatim>\<open>./serialization\<close>;
  \<^item> \<open>workerFarm\<close> is the reply of the worker farm to a request: the arguments its
    callback is called with, \<open>Inl\<close> an error object, \<open>Inr\<close> the data object;
  \<^item> \<open>cacache_get\<close> is how \<^verbatim>\<open>cacache.get(location, key)\<close> settles: \<open>Some\<close> of the
    stored bytes when the promise resolves, \<open>None\<close> when it rejects (missing key, read
    failure);
  \<^item> \<open>cacache_put\<close> is how \<^verbatim>\<open>cacache.put(location, key, data)\<close> settles: resolved or
    rejected;
  \<^item> \<open>JSON_parse\<close> is \<^verbatim>\<open>JSON.parse\<close>: \<open>None\<close> where it throws;
  \<^item> \<open>cpus\<close> is \<^verbatim>\<open>os.cpus().length\<close> and \<open>findCacheDir\<close> what
    \<^verbatim>\<open>findCacheDir({ name: 'uglifyjs-webpack-plugin' })\<close> returns.
  The replies of the farm and of the cache are indexed by the task whose request they
  answer, so that two requests with equal arguments may be answered differently.
\<close>

record deps =
  minify :: "task \<Rightarrow> props + props"
  encode :: replacer
  workerFarm :: "nat \<Rightarrow> json option \<Rightarrow> props + props"
  cacache_get :: "nat \<Rightarrow> jsval \<Rightarrow> string \<Rightarrow> string option"
  cacache_put :: "nat \<Rightarrow> jsval \<Rightarrow> string \<Rightarrow> json option \<Rightarrow> bool"
  JSON_parse :: "string \<Rightarrow> jsval option"
  cpus :: nat
  findCacheDir :: jsval

section \<open>The constructor\<close>

text \<open>
  The argument of the constructor: absent (the default \<^verbatim>\<open>{}\<close> applies), a boolean, or
  an object of which \<^verbatim>\<open>cache\<close> and \<^verbatim>\<open>workers\<close> are read.  The \<^verbatim>\<open>workers\<close> option is
  absent, a boolean or an integer.  The argument \<^verbatim>\<open>null\<close>, for which the destructuring
  throws, is not of this type.
\<close>

datatype workers_option = WUndefined | WBool bool | WNum int

datatype parallel = NoArgument | Boolean bool | Options jsval workers_option

text \<open>\<^verbatim>\<open>Number(workers) || 0\<close>: undefined gives NaN, which is falsy.\<close>

fun Number_or_0 :: "workers_option \<Rightarrow> int" where
  "Number_or_0 WUndefined = 0"
| "Number_or_0 (WBool b) = (if b then 1 else 0)"
| "Number_or_0 (WNum n) = n"

record uglify =
  cache :: jsval
  workers :: int

definition options_of :: "parallel \<Rightarrow> jsval \<times> workers_option" where
  "options_of p =
     (case p of
        NoArgument \<Rightarrow> (undefined_val, WUndefined)
      | Boolean b \<Rightarrow> (Prim (VBool b), WBool b)
      | Options c w \<Rightarrow> (c, w))"

definition constructor :: "deps \<Rightarrow> parallel \<Rightarrow> uglify" where
  "constructor d p =
     (case options_of p of (c, w) \<Rightarrow>
        \<lparr> cache = (if c = Prim (VBool True) then findCacheDir d else c),
          workers = (if w = WBool True then int (cpus d) - 1
                     else min (Number_or_0 w) (int (cpus d) - 1)) \<rparr>)"

section \<open>Running a batch\<close>

text \<open>
  \<^verbatim>\<open>runTasks\<close> is written with callbacks and promises.  Its synchronous part is the
  function \<open>runTasks\<close> below; each continuation it registers is a case of \<open>fire\<close>.  The
  model relies on the following about what surrounds the code:
  \<^item> the event loop runs one continuation at a time;
  \<^item> a promise of the cache settles once, and the farm calls its callback once;
  \<^item> \<open>minify\<close> and the farm give an object, or an error object (which is truthy);
  \<^item> the completion callback returns normally.

  The operations in flight for a task: its cache lookup, its request to the worker
  farm, or the cache write of its result.  Each holds what the continuation registered
  for it has captured.
\<close>

datatype pend = AwaitGet | AwaitWorker "json option" | AwaitPut jsval

text \<open>
  The state of one \<^verbatim>\<open>runTasks\<close> call: the variables \<^verbatim>\<open>toRun\<close> and \<^verbatim>\<open>results\<close> of
  its closure (a hole of the array is \<open>None\<close>), the operation in flight of each task, and
  three logs: the calls of the completion callback with their two arguments, the
  calls of \<^verbatim>\<open>this.worker\<close> by task index, and the calls of \<^verbatim>\<open>cacache.put\<close>.
\<close>

record state =
  toRun :: int
  results :: "jsval option list"
  pending :: "nat \<Rightarrow> pend option"
  callbacks :: "(jsval \<times> jsval option list) list"
  computes :: "nat list"
  writes :: "(jsval \<times> string \<times> json option) list"

text \<open>\<^verbatim>\<open>results[index] = data\<close>: an assignment past the end extends the array with holes.\<close>

definition assign :: "'a option list \<Rightarrow> nat \<Rightarrow> 'a \<Rightarrow> 'a option list" where
  "assign xs i v =
     (if i < length xs then xs[i := Some v]
      else xs @ replicate (i - length xs) None @ [Some v])"

text \<open>\<^verbatim>\<open>step\<close>: count down, record, and call the completion callback on reaching zero.\<close>

definition step :: "state \<Rightarrow> nat \<Rightarrow> jsval \<Rightarrow> state" where
  "step s index data =
     (let s1 = s\<lparr>toRun := toRun s - 1\<rparr>;
          s2 = s1\<lparr>results := assign (results s1) index data\<rparr>
      in if toRun s2 = 0
         then s2\<lparr>callbacks := callbacks s2 @ [(null_val, results s2)]\<rparr>
         else s2)"

text \<open>
  The callback \<^verbatim>\<open>(error, data) => ...\<close> that \<^verbatim>\<open>enqueue\<close> passes to the worker.  With a
  cache and no error in the result, the write is issued and \<^verbatim>\<open>done\<close> waits for it to
  settle; otherwise \<^verbatim>\<open>done\<close> runs at once.
\<close>

definition worker_callback ::
  "uglify \<Rightarrow> task \<Rightarrow> nat \<Rightarrow> props + props \<Rightarrow> state \<Rightarrow> state" where
  "worker_callback u t index reply s =
     (let result = (case reply of Inl error \<Rightarrow> [(''error'', Object error)] | Inr data \<Rightarrow> data)
      in if truthy (cache u) \<and> \<not> truthy (get_prop result ''error'')
         then s\<lparr>writes := writes s @
                  [(cache u, cacheKey t, JSON_stringify no_replacer (Object result))],
                pending := (pending s)(index \<mapsto> AwaitPut (Object result))\<rparr>
         else step s index (Object result))"

text \<open>
  \<^verbatim>\<open>worker(options, callback)\<close>: with a positive worker count the serialised task goes
  to the farm and the callback waits for the reply; otherwise \<open>minify\<close> runs inline and
  the callback is called before \<^verbatim>\<open>worker\<close> returns.
\<close>

definition worker :: "deps \<Rightarrow> uglify \<Rightarrow> task \<Rightarrow> nat \<Rightarrow> state \<Rightarrow> state" where
  "worker d u t index s =
     (let s1 = s\<lparr>computes := computes s @ [index]\<rparr>
      in if 0 < workers u
         then s1\<lparr>pending := (pending s1)(index \<mapsto>
                  AwaitWorker (JSON_stringify (encode d) (task_object t)))\<rparr>
         else worker_callback u t index (minify d t) s1)"

text \<open>\<^verbatim>\<open>enqueue\<close> calls the worker with the task and the callback above.\<close>

definition enqueue :: "deps \<Rightarrow> uglify \<Rightarrow> task \<Rightarrow> nat \<Rightarrow> state \<Rightarrow> state" where
  "enqueue d u t index s = worker d u t index s"

text \<open>The body of \<^verbatim>\<open>tasks.forEach((task, index) => ...)\<close>, and the loop from index \<open>i\<close> on.\<close>

definition visit :: "deps \<Rightarrow> uglify \<Rightarrow> task \<Rightarrow> nat \<Rightarrow> state \<Rightarrow> state" where
  "visit d u t index s =
     (if truthy (cache u) then s\<lparr>pending := (pending s)(index \<mapsto> AwaitGet)\<rparr>
      else enqueue d u t index s)"

fun forEach :: "deps \<Rightarrow> uglify \<Rightarrow> nat \<Rightarrow> task list \<Rightarrow> state \<Rightarrow> state" where
  "forEach d u i [] s = s"
| "forEach d u i (t # ts) s = forEach d u (Suc i) ts (visit d u t i s)"

text \<open>
  \<^verbatim>\<open>runTasks\<close>: the empty batch calls the callback at once; otherwise \<^verbatim>\<open>toRun\<close> is the
  number of tasks, \<^verbatim>\<open>results\<close> is empty and every task is visited.
\<close>

definition initial :: state where
  "initial = \<lparr> toRun = 0, results = [], pending = (\<lambda>i. None), callbacks = [],
               computes = [], writes = [] \<rparr>"

definition runTasks :: "deps \<Rightarrow> uglify \<Rightarrow> task list \<Rightarrow> state" where
  "runTasks d u tasks =
     (if length tasks = 0 then initial\<lparr>callbacks := [(null_val, [])]\<rparr>
      else forEach d u 0 tasks (initial\<lparr>toRun := int (length tasks)\<rparr>))"

text \<open>
  After \<^verbatim>\<open>runTasks\<close> has returned, the event loop runs one continuation at a time.
  \<open>fire i\<close> settles the operation in flight of task \<open>i\<close>, if there is one:
  \<^item> the lookup resolved: the bytes are parsed and \<^verbatim>\<open>step\<close> is called; when
    \<^verbatim>\<open>JSON.parse\<close> throws, the exception rejects the promise \<^verbatim>\<open>then\<close> returned, which
    nothing handles;
  \<^item> the lookup rejected: \<^verbatim>\<open>enqueue\<close>;
  \<^item> the farm replied: the worker callback;
  \<^item> the write settled: \<^verbatim>\<open>then(done, done)\<close> calls \<^verbatim>\<open>done\<close> either way.
\<close>

definition fire :: "deps \<Rightarrow> uglify \<Rightarrow> task list \<Rightarrow> nat \<Rightarrow> state \<Rightarrow> state" where
  "fire d u tasks i s =
     (if i < length tasks then
        (case pending s i of
           None \<Rightarrow> s
         | Some p \<Rightarrow>
             (let t = tasks ! i; s1 = s\<lparr>pending := (pending s)(i := None)\<rparr>
              in case p of
                   AwaitGet \<Rightarrow>
                     (case cacache_get d i (cache u) (cacheKey t) of
                        Some bytes \<Rightarrow>
                          (case JSON_parse d bytes of
                             Some v \<Rightarrow> step s1 i v
                           | None \<Rightarrow> s1)
                      | None \<Rightarrow> enqueue d u t i s1)
                 | AwaitWorker payload \<Rightarrow> worker_callback u t i (workerFarm d i payload) s1
                 | AwaitPut result \<Rightarrow>
                     (if cacache_put d i (cache u) (cacheKey t)
                           (JSON_stringify no_replacer result)
                      then step s1 i result else step s1 i result)))
      else s)"

text \<open>
  A run: the batch is started and the operations in flight settle in the order of the
  schedule, a list of task indices.
\<close>

definition run :: "deps \<Rightarrow> uglify \<Rightarrow> task list \<Rightarrow> nat list \<Rightarrow> state" where
  "run d u tasks schedule = fold (fire d u tasks) schedule (runTasks d u tasks)"

section \<open>Outcomes and the invariant of a run\<close>

text \<open>Reading slot \<open>i\<close> of the results array: a hole and an index past the end are \<open>None\<close>.\<close>

definition slot :: "'a option list \<Rightarrow> nat \<Rightarrow> 'a option" where
  "slot xs i = (if i < length xs then xs ! i else None)"

text \<open>The request \<^verbatim>\<open>worker\<close> sends to the farm for a task.\<close>

definition request :: "deps \<Rightarrow> task \<Rightarrow> json option" where
  "request d t = JSON_stringify (encode d) (task_object t)"

text \<open>
  What the worker answers for task \<open>i\<close>: the reply of the farm to the request, or what
  \<open>minify\<close> gives inline.
\<close>

definition compute :: "deps \<Rightarrow> uglify \<Rightarrow> task list \<Rightarrow> nat \<Rightarrow> props + props" where
  "compute d u tasks i =
     (if 0 < workers u then workerFarm d i (request d (tasks ! i)) else minify d (tasks ! i))"

text \<open>\<^verbatim>\<open>error ? { error } : data\<close>\<close>

definition result_of :: "props + props \<Rightarrow> jsval" where
  "result_of reply = (case reply of Inl error \<Rightarrow> Object [(''error'', Object error)] | Inr data \<Rightarrow> Object data)"

text \<open>
  The outcome of task \<open>i\<close>, in the words of the spec (4.1): on a hit, the stored result
  deserialised (\<open>None\<close> when it does not deserialise); on a miss, which includes a read
  error, and without a cache, what the worker answers, an error being recorded as
  \<^verbatim>\<open>{ error }\<close>.  \<open>goes_to_compute\<close> says that task \<open>i\<close> is not served from the cache.
\<close>

definition goes_to_compute :: "deps \<Rightarrow> uglify \<Rightarrow> task list \<Rightarrow> nat \<Rightarrow> bool" where
  "goes_to_compute d u tasks i =
     (truthy (cache u) \<longrightarrow> cacache_get d i (cache u) (cacheKey (tasks ! i)) = None)"

definition outcome :: "deps \<Rightarrow> uglify \<Rightarrow> task list \<Rightarrow> nat \<Rightarrow> jsval option" where
  "outcome d u tasks i =
     (if truthy (cache u) then
        (case cacache_get d i (cache u) (cacheKey (tasks ! i)) of
           Some bytes \<Rightarrow> JSON_parse d bytes
         | None \<Rightarrow> Some (result_of (compute d u tasks i)))
      else Some (result_of (compute d u tasks i)))"

text \<open>Nothing is in flight.\<close>

definition quiescent :: "task list \<Rightarrow> state \<Rightarrow> bool" where
  "quiescent tasks s = list_all (\<lambda>i. pending s i = None) [0..<length tasks]"

text \<open>
  The invariant.  Of the closure: the array is no longer than the batch, \<^verbatim>\<open>toRun\<close> is
  the number of empty slots, and the completion callback has been called exactly when
  \<^verbatim>\<open>toRun\<close> is zero, with the array.  Of task \<open>i\<close>: while an operation is in flight its slot
  is empty, and the operation is one the code can have issued; with nothing in flight
  the slot holds the outcome.  The worker has been called once for a task that went to
  compute and never for the others.  \<open>fresh\<close> is a task the loop has not reached yet.
\<close>

definition global_inv :: "task list \<Rightarrow> state \<Rightarrow> bool" where
  "global_inv tasks s =
     (length (results s) \<le> length tasks \<and>
      toRun s = int (card {i. i < length tasks \<and> slot (results s) i = None}) \<and>
      callbacks s = (if toRun s = 0 then [(null_val, results s)] else []))"

definition local_inv :: "deps \<Rightarrow> uglify \<Rightarrow> task list \<Rightarrow> state \<Rightarrow> nat \<Rightarrow> bool" where
  "local_inv d u tasks s i =
     (case pending s i of
        Some AwaitGet \<Rightarrow>
          truthy (cache u) \<and> slot (results s) i = None \<and> count_list (computes s) i = 0
      | Some (AwaitWorker r) \<Rightarrow>
          0 < workers u \<and> goes_to_compute d u tasks i \<and> r = request d (tasks ! i) \<and>
          slot (results s) i = None \<and> count_list (computes s) i = 1
      | Some (AwaitPut v) \<Rightarrow>
          truthy (cache u) \<and> goes_to_compute d u tasks i \<and> v = result_of (compute d u tasks i) \<and>
          slot (results s) i = None \<and> count_list (computes s) i = 1
      | None \<Rightarrow>
          slot (results s) i = outcome d u tasks i \<and>
          count_list (computes s) i = (if goes_to_compute d u tasks i then 1 else 0))"

definition fresh :: "state \<Rightarrow> nat \<Rightarrow> bool" where
  "fresh s i = (pending s i = None \<and> slot (results s) i = None \<and> count_list (computes s) i = 0)"

definition inv :: "deps \<Rightarrow> uglify \<Rightarrow> task list \<Rightarrow> nat \<Rightarrow> state \<Rightarrow> bool" where
  "inv d u tasks k s =
     (global_inv tasks s \<and>
      (\<forall>i<length tasks. if i < k then local_inv d u tasks s i else fresh s i))"

text \<open>Two states that differ at most in what concerns task \<open>i\<close>.\<close>

definition same_except :: "nat \<Rightarrow> state \<Rightarrow> state \<Rightarrow> bool" where
  "same_except i s s' =
     (\<forall>j. j \<noteq> i \<longrightarrow> pending s' j = pending s j \<and> slot (results s') j = slot (results s) j \<and>
        count_list (computes s') j = count_list (computes s) j)"

text \<open>What an operation on task \<open>i\<close> establishes: the global invariant, the
  local invariant of \<open>i\<close>, and nothing changed for the other tasks.\<close>

definition establishes :: "deps \<Rightarrow> uglify \<Rightarrow> task list \<Rightarrow> nat \<Rightarrow> state \<Rightarrow> state \<Rightarrow> bool" where
  "establishes d u tasks i s s' =
     (global_inv tasks s' \<and> local_inv d u tasks s' i \<and> same_except i s s')"

text \<open>
  How far the operation in flight of a task is from the task's \<^verbatim>\<open>step\<close>: a lookup
  may be followed by a request to the farm and a cache write.
\<close>

fun phase :: "pend option \<Rightarrow> nat" where
  "phase None = 0"
| "phase (Some (AwaitPut v)) = 1"
| "phase (Some (AwaitWorker r)) = 2"
| "phase (Some AwaitGet) = 3"

text \<open>A schedule that lets every operation in flight settle: three rounds over the tasks.\<close>

definition drain :: "nat \<Rightarrow> nat list" where
  "drain n = [0..<n] @ [0..<n] @ [0..<n]"

text \<open>
  Two batches, each with its dependencies, agree on task \<open>i\<close> when the task and every
  reply to its own requests are the same in both; the other tasks, and what is replied
  to them, may differ.
\<close>

definition agree_on :: "deps \<Rightarrow> task list \<Rightarrow> deps \<Rightarrow> task list \<Rightarrow> nat \<Rightarrow> bool" where
  "agree_on d tasks d' tasks' i =
     (tasks' ! i = tasks ! i \<and> minify d' (tasks ! i) = minify d (tasks ! i) \<and>
      encode d' = encode d \<and> workerFarm d' i = workerFarm d i \<and>
      cacache_get d' i = cacache_get d i \<and> JSON_parse d' = JSON_parse d)"

section \<open>The worker unit\<close>

text \<open>
  \<^verbatim>\<open>JSON.parse\<close> of the text of a JSON document, and what an object or a thrown error
  becomes when it is serialised and parsed back: properties whose value is undefined
  or a function are gone, a regular expression is an empty object.
\<close>

primrec of_json :: "json \<Rightarrow> jsval" where
  "of_json JNull = Prim VNull"
| "of_json (JBool b) = Prim (VBool b)"
| "of_json (JNum n) = Prim (VNum n)"
| "of_json (JStr s) = Prim (VStr s)"
| "of_json (JArr xs) = Array (map of_json xs)"
| "of_json (JObj ms) = Object (map (map_prod id of_json) ms)"

definition props_image :: "props \<Rightarrow> props" where
  "props_image ps = map (map_prod id of_json) (SerializeJSONObject no_replacer ps)"


definition reply_image :: "props + props \<Rightarrow> props + props" where
  "reply_image reply =
     (case reply of Inl error \<Rightarrow> Inl (props_image error) | Inr data \<Rightarrow> Inr (props_image data))"

text \<open>
  Modelled from the spec: the worker unit (\<^verbatim>\<open>./worker\<close>, the module the farm runs in
  another process) and the decoder of \<^verbatim>\<open>./serialization\<close> are missing from the
  available sources.  The spec (4.2): "the full Task payload is serialized to a
  transport-neutral form, decoded inside the unit, passed to the Compute Function, and
  the Result (or thrown error) is serialized back."  The unit decodes the request,
  runs the Compute Function on it, and what comes back to the callback of the farm is
  the result, or the thrown error, serialised and parsed back.  The decoder is a
  parameter.
\<close>

definition worker_unit ::
  "(json option \<Rightarrow> task) \<Rightarrow> (task \<Rightarrow> props + props) \<Rightarrow> json option \<Rightarrow> props + props" where
  "worker_unit decode f payload = reply_image (f (decode payload))"


section \<open>The plugin's constructor\<close>

text \<open>
  The plugin validates its options before it stores them
  (\<^verbatim>\<open>validateOptions(schema, options, 'UglifyJs Plugin')\<close>, which throws on invalid
  options), and builds the dispatcher from the stored \<^verbatim>\<open>parallel\<close> option when a
  compilation optimises its assets (\<^verbatim>\<open>new Uglify(this.options.parallel)\<close>).  The schema
  \<^verbatim>\<open>./options.json\<close> is missing from the available sources: what the validation
  decides for a \<^verbatim>\<open>parallel\<close> option, the other options being valid, is the parameter
  \<open>accepts\<close>.
\<close>

datatype error = ValidationError

definition UglifyJsPlugin_constructor :: "(parallel \<Rightarrow> bool) \<Rightarrow> parallel \<Rightarrow> error + parallel" where
  "UglifyJsPlugin_constructor accepts p = (if accepts p then Inr p else Inl ValidationError)"

definition plugin_dispatcher :: "(parallel \<Rightarrow> bool) \<Rightarrow> deps \<Rightarrow> parallel \<Rightarrow> error + uglify" where
  "plugin_dispatcher accepts d p =
     (case UglifyJsPlugin_constructor accepts p of
        Inl e \<Rightarrow> Inl e
      | Inr stored \<Rightarrow> Inr (constructor d stored))"

section \<open>Cache writes\<close>

text \<open>
  The worker answers for task \<open>i\<close> with data that has no truthy \<^verbatim>\<open>error\<close> property; and
  the arguments of the \<^verbatim>\<open>cacache.put\<close> call the worker callback then makes.
\<close>

definition succeeds :: "deps \<Rightarrow> uglify \<Rightarrow> task list \<Rightarrow> nat \<Rightarrow> bool" where
  "succeeds d u tasks i =
     (case compute d u tasks i of
        Inl error \<Rightarrow> False
      | Inr data \<Rightarrow> \<not> truthy (get_prop data ''error''))"

definition write_of :: "deps \<Rightarrow> uglify \<Rightarrow> task list \<Rightarrow> nat \<Rightarrow> jsval \<times> string \<times> json option" where
  "write_of d u tasks i =
     (cache u, cacheKey (tasks ! i),
      JSON_stringify no_replacer (result_of (compute d u tasks i)))"

section \<open>Sample inputs\<close>

text \<open>
  A task for a one-line source, and dependencies for it: a minifier that rejects the
  input \<^verbatim>\<open>syntax error\<close> and otherwise returns the input as code; an encoder that
  writes functions and regular expressions as strings; a cache that holds the text
  \<^verbatim>\<open>{}\<close> under key \<^verbatim>\<open>A\<close>, a lone opening brace (not JSON) under key \<^verbatim>\<open>X\<close> and nothing
  else, and whose writes fail; a parser that knows the empty object and \<^verbatim>\<open>null\<close>; a farm of
  worker units that read the key and the input back from the request.
\<close>

definition sample_task :: "string \<Rightarrow> string \<Rightarrow> task" where
  "sample_task key src =
     \<lparr> cacheKey = key, task_file = ''main.js'', input = src, sourceMap = undefined_val,
       inputSourceMap = undefined_val, commentsFile = Prim (VBool False),
       extractComments = undefined_val,
       uglifyOptions = Object [(''output'', Object [(''comments'', RegExp ''^!'')])] \<rparr>"

definition sample_minify :: "task \<Rightarrow> props + props" where
  "sample_minify t =
     (if input t = ''syntax error'' then Inl [(''message'', Prim (VStr ''Unexpected token''))]
      else Inr [(''code'', Prim (VStr (input t)))])"

definition sample_encode :: replacer where
  "sample_encode k v =
     (case v of Function src \<Rightarrow> Swap (VStr src) | RegExp src \<Rightarrow> Swap (VStr src) | _ \<Rightarrow> Same)"

fun json_text :: "json option \<Rightarrow> string" where
  "json_text (Some (JStr s)) = s"
| "json_text other = []"

definition sample_decode :: "json option \<Rightarrow> task" where
  "sample_decode payload =
     (case payload of
        Some (JObj members) \<Rightarrow>
          sample_task (json_text (map_of members ''cacheKey'')) (json_text (map_of members ''input''))
      | _ \<Rightarrow> sample_task [] [])"

definition sample_deps :: deps where
  "sample_deps =
     \<lparr> minify = sample_minify,
       encode = sample_encode,
       workerFarm = (\<lambda>i. worker_unit sample_decode sample_minify),
       cacache_get = (\<lambda>i location key.
          if key = ''A'' then Some ''{}'' else if key = ''X'' then Some ''{'' else None),
       cacache_put = (\<lambda>i location key data. False),
       JSON_parse = (\<lambda>bytes.
          if bytes = ''{}'' then Some (Object [])
          else if bytes = ''null'' then Some null_val else None),
       cpus = 4,
       findCacheDir = Prim (VStr ''node_modules/.cache/uglifyjs-webpack-plugin'') \<rparr>"

definition sample_batch :: "task list" where
  "sample_batch =
     [sample_task ''A'' ''a = 1;'', sample_task ''B'' ''b = 2;'', sample_task ''C'' ''syntax error'']"

text \<open>
  A batch whose second task fails; a minifier that, on success, returns an object with
  an \<^verbatim>\<open>error\<close> property whose value is undefined; and a schema that admits the
  \<^verbatim>\<open>parallel\<close> option as a boolean or as an object with a boolean \<^verbatim>\<open>cache\<close> and a boolean
  or integer \<^verbatim>\<open>workers\<close>, each of them optional.
\<close>

definition failing_batch :: "task list" where
  "failing_batch =
     [sample_task ''A'' ''a = 1;'', sample_task ''B'' ''syntax error'', sample_task ''C'' ''c = 3;'']"

definition verbose_minify :: "task \<Rightarrow> props + props" where
  "verbose_minify t =
     (if input t = ''syntax error'' then Inl [(''message'', Prim (VStr ''Unexpected token''))]
      else Inr [(''error'', undefined_val), (''code'', Prim (VStr (input t)))])"

definition verbose_deps :: deps where
  "verbose_deps =
     sample_deps\<lparr> minify := verbose_minify,
                  workerFarm := (\<lambda>i. worker_unit sample_decode verbose_minify) \<rparr>"

fun sample_schema :: "parallel \<Rightarrow> bool" where
  "sample_schema NoArgument = True"
| "sample_schema (Boolean b) = True"
| "sample_schema (Options c w) =
     (c = undefined_val \<or> c = Prim (VBool True) \<or> c = Prim (VBool False))"

text \<open>The same schema with a minimum of 0 for an integer \<^verbatim>\<open>workers\<close>.\<close>

fun strict_schema :: "parallel \<Rightarrow> bool" where
  "strict_schema (Options c (WNum n)) = (sample_schema (Options c (WNum n)) \<and> 0 \<le> n)"
| "strict_schema p = sample_schema p"

section \<open>The invariant holds in every run\<close>

lemma slot_assign: "slot (assign xs i v) j = (if j = i then Some v else slot xs j)"
  by (auto simp: slot_def assign_def nth_append)

lemma length_assign: "length (assign xs i v) = max (length xs) (Suc i)"
  by (auto simp: assign_def)

lemma step_fields:
  "toRun (step s i v) = toRun s - 1"
  "results (step s i v) = assign (results s) i v"
  "pending (step s i v) = pending s"
  "computes (step s i v) = computes s"
  "writes (step s i v) = writes s"
  "callbacks (step s i v) =
     (if toRun s = 1 then callbacks s @ [(null_val, assign (results s) i v)] else callbacks s)"
  by (simp_all add: step_def Let_def)

lemma card_unrecorded:
  assumes "i < n" "slot xs i = None"
  shows "int (card {j. j < n \<and> slot (assign xs i v) j = None}) = int (card {j. j < n \<and> slot xs j = None}) - 1"
    and "card {j. j < n \<and> slot xs j = None} \<noteq> 0"
proof -
  let ?A = "{j. j < n \<and> slot xs j = None}"
  have fin: "finite ?A" by simp
  have mem: "i \<in> ?A" using assms by simp
  have eq: "{j. j < n \<and> slot (assign xs i v) j = None} = ?A - {i}"
    by (auto simp: slot_assign)
  have c: "card (?A - {i}) = card ?A - 1" using fin mem by simp
  have ne: "?A \<noteq> {}" using mem by blast
  show pos: "card ?A \<noteq> 0" using fin ne by simp
  have aux: "m \<noteq> 0 \<Longrightarrow> int (m - 1) = int m - 1" for m :: nat by simp
  show "int (card {j. j < n \<and> slot (assign xs i v) j = None}) = int (card ?A) - 1"
    unfolding eq c by (rule aux[OF pos])
qed

lemma step_global:
  assumes "global_inv tasks s" "i < length tasks" "slot (results s) i = None"
  shows "global_inv tasks (step s i v)"
proof -
  have g1: "length (results s) \<le> length tasks"
    and g2: "toRun s = int (card {j. j < length tasks \<and> slot (results s) j = None})"
    and g3: "callbacks s = (if toRun s = 0 then [(null_val, results s)] else [])"
    using assms(1) by (simp_all add: global_inv_def)
  have pos: "toRun s \<noteq> 0"
    using card_unrecorded(2)[OF assms(2,3)] g2 by simp
  then have cb: "callbacks s = []" using g3 by simp
  have len: "length (results (step s i v)) \<le> length tasks"
    using assms(2) g1 by (simp add: step_fields length_assign)
  have tr: "toRun (step s i v) =
      int (card {j. j < length tasks \<and> slot (results (step s i v)) j = None})"
    using card_unrecorded(1)[OF assms(2,3), of v] g2 by (simp add: step_fields)
  have "callbacks (step s i v) = (if toRun s - 1 = 0 then [(null_val, assign (results s) i v)] else [])"
    using cb by (simp add: step_fields)
  then have cbs: "callbacks (step s i v) =
      (if toRun (step s i v) = 0 then [(null_val, results (step s i v))] else [])"
    by (simp add: step_fields)
  show ?thesis
    unfolding global_inv_def using len tr cbs by blast
qed


lemma global_inv_frame:
  "toRun s' = toRun s \<Longrightarrow> results s' = results s \<Longrightarrow> callbacks s' = callbacks s \<Longrightarrow>
   global_inv tasks s \<Longrightarrow> global_inv tasks s'"
  by (simp add: global_inv_def)

lemma local_inv_frame:
  assumes "pending s' j = pending s j" "slot (results s') j = slot (results s) j"
    "count_list (computes s') j = count_list (computes s) j"
  shows "local_inv d u tasks s' j = local_inv d u tasks s j"
  unfolding local_inv_def assms by (rule refl)

lemma fresh_frame:
  assumes "pending s' j = pending s j" "slot (results s') j = slot (results s) j"
    "count_list (computes s') j = count_list (computes s) j"
  shows "fresh s' j = fresh s j"
  unfolding fresh_def assms by (rule refl)

lemma same_except_refl: "same_except i s s"
  by (simp add: same_except_def)

lemma same_except_trans: "same_except i s s1 \<Longrightarrow> same_except i s1 s2 \<Longrightarrow> same_except i s s2"
  by (simp add: same_except_def)

lemma same_except_local:
  assumes "same_except i s s'" "j \<noteq> i" "local_inv d u tasks s j"
  shows "local_inv d u tasks s' j"
proof -
  have "local_inv d u tasks s' j = local_inv d u tasks s j"
    by (rule local_inv_frame) (use assms(1,2) in \<open>simp_all add: same_except_def\<close>)
  then show ?thesis using assms(3) by simp
qed

lemma same_except_fresh:
  assumes "same_except i s s'" "j \<noteq> i" "fresh s j"
  shows "fresh s' j"
proof -
  have "fresh s' j = fresh s j"
    by (rule fresh_frame) (use assms(1,2) in \<open>simp_all add: same_except_def\<close>)
  then show ?thesis using assms(3) by simp
qed

lemma same_except_step: "same_except i s (step s i v)"
  by (simp add: same_except_def step_fields slot_assign)

lemma outcome_compute:
  "goes_to_compute d u tasks i \<Longrightarrow> outcome d u tasks i = Some (result_of (compute d u tasks i))"
  by (simp add: goes_to_compute_def outcome_def)

lemma step_local:
  assumes "pending s i = None" "outcome d u tasks i = Some v"
    "count_list (computes s) i = (if goes_to_compute d u tasks i then 1 else 0)"
  shows "local_inv d u tasks (step s i v) i"
  using assms by (simp add: local_inv_def step_fields slot_assign)

lemma worker_callback_establishes:
  assumes g: "global_inv tasks s" and i: "i < length tasks"
    and sl: "slot (results s) i = None" and pe: "pending s i = None"
    and gc: "goes_to_compute d u tasks i" and cnt: "count_list (computes s) i = 1"
    and reply: "reply = compute d u tasks i"
  shows "establishes d u tasks i s (worker_callback u (tasks ! i) i reply s)"
proof -
  let ?result = "case reply of Inl error \<Rightarrow> [(''error'', Object error)] | Inr data \<Rightarrow> data"
  have res: "Object ?result = result_of (compute d u tasks i)"
    using reply by (simp add: result_of_def split: sum.splits)
  show ?thesis
  proof (cases "truthy (cache u) \<and> \<not> truthy (get_prop ?result ''error'')")
    case True
    let ?s' = "s\<lparr>writes := writes s @
                  [(cache u, cacheKey (tasks ! i), JSON_stringify no_replacer (Object ?result))],
                pending := (pending s)(i \<mapsto> AwaitPut (Object ?result))\<rparr>"
    have eq: "worker_callback u (tasks ! i) i reply s = ?s'"
      unfolding worker_callback_def Let_def by (rule if_P[OF True])
    have "global_inv tasks ?s'" using g by (rule global_inv_frame[rotated 3]) simp_all
    moreover have "local_inv d u tasks ?s' i"
      using True gc sl cnt res by (simp add: local_inv_def)
    moreover have "same_except i s ?s'" by (simp add: same_except_def)
    ultimately show ?thesis unfolding eq establishes_def by blast
  next
    case False
    have eq: "worker_callback u (tasks ! i) i reply s = step s i (Object ?result)"
      unfolding worker_callback_def Let_def by (rule if_not_P[OF False])
    have out: "outcome d u tasks i = Some (Object ?result)"
      using outcome_compute[OF gc] res by simp
    have "global_inv tasks (step s i (Object ?result))" using g i sl by (rule step_global)
    moreover have "local_inv d u tasks (step s i (Object ?result)) i"
      using pe out cnt gc by (intro step_local) simp_all
    moreover have "same_except i s (step s i (Object ?result))" by (rule same_except_step)
    ultimately show ?thesis unfolding eq establishes_def by blast
  qed
qed

lemma enqueue_establishes:
  assumes g: "global_inv tasks s" and i: "i < length tasks"
    and sl: "slot (results s) i = None" and pe: "pending s i = None"
    and gc: "goes_to_compute d u tasks i" and cnt: "count_list (computes s) i = 0"
  shows "establishes d u tasks i s (enqueue d u (tasks ! i) i s)"
proof -
  let ?s1 = "s\<lparr>computes := computes s @ [i]\<rparr>"
  have g1: "global_inv tasks ?s1" using g by (rule global_inv_frame[rotated 3]) simp_all
  have cnt1: "count_list (computes ?s1) i = 1" using cnt by simp
  have se1: "same_except i s ?s1" by (simp add: same_except_def)
  show ?thesis
  proof (cases "0 < workers u")
    case True
    let ?s' = "?s1\<lparr>pending := (pending ?s1)(i \<mapsto>
                  AwaitWorker (JSON_stringify (encode d) (task_object (tasks ! i))))\<rparr>"
    have eq: "enqueue d u (tasks ! i) i s = ?s'"
      using True by (simp add: enqueue_def worker_def Let_def)
    have "global_inv tasks ?s'" using g by (rule global_inv_frame[rotated 3]) simp_all
    moreover have "local_inv d u tasks ?s' i"
      using True gc sl cnt by (simp add: local_inv_def request_def)
    moreover have "same_except i s ?s'" by (simp add: same_except_def)
    ultimately show ?thesis unfolding eq establishes_def by blast
  next
    case False
    have eq: "enqueue d u (tasks ! i) i s = worker_callback u (tasks ! i) i (minify d (tasks ! i)) ?s1"
      using False by (simp add: enqueue_def worker_def Let_def)
    have rep: "minify d (tasks ! i) = compute d u tasks i"
      using False by (simp add: compute_def)
    have "establishes d u tasks i ?s1 (worker_callback u (tasks ! i) i (minify d (tasks ! i)) ?s1)"
      using g1 i _ _ gc cnt1 rep by (rule worker_callback_establishes) (simp_all add: sl pe)
    then show ?thesis
      unfolding eq establishes_def using se1 same_except_trans by blast
  qed
qed

lemma visit_establishes:
  assumes g: "global_inv tasks s" and i: "i < length tasks" and fr: "fresh s i"
  shows "establishes d u tasks i s (visit d u (tasks ! i) i s)"
proof (cases "truthy (cache u)")
  case True
  let ?s' = "s\<lparr>pending := (pending s)(i \<mapsto> AwaitGet)\<rparr>"
  have eq: "visit d u (tasks ! i) i s = ?s'" using True by (simp add: visit_def)
  have "global_inv tasks ?s'" using g by (rule global_inv_frame[rotated 3]) simp_all
  moreover have "local_inv d u tasks ?s' i"
    using True fr by (simp add: local_inv_def fresh_def)
  moreover have "same_except i s ?s'" by (simp add: same_except_def)
  ultimately show ?thesis unfolding eq establishes_def by blast
next
  case False
  have eq: "visit d u (tasks ! i) i s = enqueue d u (tasks ! i) i s"
    using False by (simp add: visit_def)
  have gc: "goes_to_compute d u tasks i" using False by (simp add: goes_to_compute_def)
  show ?thesis unfolding eq
    using g i _ _ gc by (rule enqueue_establishes) (use fr in \<open>simp_all add: fresh_def\<close>)
qed

lemma establishes_inv_Suc:
  assumes "inv d u tasks k s" "k < length tasks" "establishes d u tasks k s s'"
  shows "inv d u tasks (Suc k) s'"
  unfolding inv_def
proof (intro conjI allI impI)
  show "global_inv tasks s'" using assms(3) by (simp add: establishes_def)
next
  fix i assume i: "i < length tasks"
  have se: "same_except k s s'" and lk: "local_inv d u tasks s' k"
    using assms(3) by (simp_all add: establishes_def)
  have old: "if i < k then local_inv d u tasks s i else fresh s i"
    using assms(1) i by (simp add: inv_def)
  show "if i < Suc k then local_inv d u tasks s' i else fresh s' i"
  proof (cases "i = k")
    case True then show ?thesis using lk by simp
  next
    case False
    then show ?thesis
      using old same_except_local[OF se False] same_except_fresh[OF se False]
      by (auto split: if_splits)
  qed
qed

lemma establishes_inv:
  assumes "inv d u tasks (length tasks) s" "i < length tasks" "establishes d u tasks i s s'"
  shows "inv d u tasks (length tasks) s'"
  unfolding inv_def
proof (intro conjI allI impI)
  show "global_inv tasks s'" using assms(3) by (simp add: establishes_def)
next
  fix j assume j: "j < length tasks"
  have se: "same_except i s s'" and li: "local_inv d u tasks s' i"
    using assms(3) by (simp_all add: establishes_def)
  have old: "local_inv d u tasks s j" using assms(1) j by (simp add: inv_def)
  have "local_inv d u tasks s' j"
  proof (cases "j = i")
    case True then show ?thesis using li by simp
  next
    case False then show ?thesis using old same_except_local[OF se False] by simp
  qed
  then show "if j < length tasks then local_inv d u tasks s' j else fresh s' j"
    using j by simp
qed

lemma forEach_inv:
  "inv d u tasks k s \<Longrightarrow> drop k tasks = ts \<Longrightarrow> inv d u tasks (length tasks) (forEach d u k ts s)"
proof (induction ts arbitrary: k s)
  case Nil
  then have "length tasks \<le> k" by simp
  then have "inv d u tasks (length tasks) s" using Nil(1) by (auto simp: inv_def)
  then show ?case by simp
next
  case (Cons t ts)
  have k: "k < length tasks" using Cons.prems(2)
    by (metis drop_eq_Nil list.distinct(1) not_le)
  have t: "tasks ! k = t" using Cons.prems(2) k by (metis nth_via_drop)
  have d: "drop (Suc k) tasks = ts" using Cons.prems(2) by (metis drop_Suc list.sel(3) tl_drop)
  have fr: "fresh s k" using Cons.prems(1) k by (simp add: inv_def)
  have g: "global_inv tasks s" using Cons.prems(1) by (simp add: inv_def)
  have "establishes d u tasks k s (visit d u (tasks ! k) k s)"
    using g k fr by (rule visit_establishes)
  then have "inv d u tasks (Suc k) (visit d u t k s)"
    using establishes_inv_Suc[OF Cons.prems(1) k] t by simp
  then show ?case using Cons.IH[OF _ d] by simp
qed

lemma runTasks_inv: "inv d u tasks (length tasks) (runTasks d u tasks)"
proof (cases "length tasks = 0")
  case True
  then show ?thesis
    by (simp add: runTasks_def inv_def global_inv_def initial_def)
next
  case False
  have "inv d u tasks 0 (initial\<lparr>toRun := int (length tasks)\<rparr>)"
    using False by (simp add: inv_def global_inv_def initial_def fresh_def slot_def)
  then have "inv d u tasks (length tasks) (forEach d u 0 tasks (initial\<lparr>toRun := int (length tasks)\<rparr>))"
    by (rule forEach_inv) simp
  then show ?thesis using False by (simp add: runTasks_def)
qed


lemma fire_establishes:
  assumes inv: "inv d u tasks (length tasks) s" and i: "i < length tasks"
    and p: "pending s i = Some p"
  shows "establishes d u tasks i s (fire d u tasks i s)"
proof -
  let ?t = "tasks ! i"
  let ?s1 = "s\<lparr>pending := (pending s)(i := None)\<rparr>"
  have g: "global_inv tasks s" and l: "local_inv d u tasks s i"
    using inv i by (simp_all add: inv_def)
  have g1: "global_inv tasks ?s1" using g by (rule global_inv_frame[rotated 3]) simp_all
  have se1: "same_except i s ?s1" by (simp add: same_except_def)
  have p1: "pending ?s1 i = None" by simp
  have via: "establishes d u tasks i s s'" if "establishes d u tasks i ?s1 s'" for s'
    using that se1 same_except_trans unfolding establishes_def by blast
  show ?thesis
  proof (cases p)
    case AwaitGet
    have c: "truthy (cache u)" and sl: "slot (results s) i = None"
      and cnt: "count_list (computes s) i = 0"
      using l p AwaitGet by (simp_all add: local_inv_def)
    show ?thesis
    proof (cases "cacache_get d i (cache u) (cacheKey ?t)")
      case None
      have eq: "fire d u tasks i s = enqueue d u ?t i ?s1"
        using i p AwaitGet None by (simp add: fire_def Let_def)
      have gc: "goes_to_compute d u tasks i" using None by (simp add: goes_to_compute_def)
      have "establishes d u tasks i ?s1 (enqueue d u ?t i ?s1)"
        using g1 i _ p1 gc by (rule enqueue_establishes) (simp_all add: sl cnt)
      then show ?thesis unfolding eq by (rule via)
    next
      case (Some bytes)
      have ngc: "\<not> goes_to_compute d u tasks i" using Some c by (simp add: goes_to_compute_def)
      have out: "outcome d u tasks i = JSON_parse d bytes" using Some c by (simp add: outcome_def)
      show ?thesis
      proof (cases "JSON_parse d bytes")
        case None
        have eq: "fire d u tasks i s = ?s1"
          using i p AwaitGet Some None by (simp add: fire_def Let_def)
        have "local_inv d u tasks ?s1 i"
          using sl cnt out None ngc by (simp add: local_inv_def)
        then show ?thesis unfolding eq establishes_def using g1 se1 by blast
      next
        case (Some v)
        have eq: "fire d u tasks i s = step ?s1 i v"
          using i p AwaitGet \<open>cacache_get d i (cache u) (cacheKey ?t) = Some bytes\<close> Some
          by (simp add: fire_def Let_def)
        have "global_inv tasks (step ?s1 i v)" using g1 i by (rule step_global) (simp add: sl)
        moreover have "local_inv d u tasks (step ?s1 i v) i"
          by (rule step_local) (simp_all add: out Some cnt ngc)
        moreover have "same_except i ?s1 (step ?s1 i v)" by (rule same_except_step)
        ultimately have "establishes d u tasks i ?s1 (step ?s1 i v)"
          unfolding establishes_def by blast
        then show ?thesis unfolding eq by (rule via)
      qed
    qed
  next
    case (AwaitWorker r)
    have w: "0 < workers u" and gc: "goes_to_compute d u tasks i"
      and r: "r = request d ?t" and sl: "slot (results s) i = None"
      and cnt: "count_list (computes s) i = 1"
      using l p AwaitWorker by (simp_all add: local_inv_def)
    have eq: "fire d u tasks i s = worker_callback u ?t i (workerFarm d i r) ?s1"
      using i p AwaitWorker by (simp add: fire_def Let_def)
    have rep: "workerFarm d i r = compute d u tasks i" using w r by (simp add: compute_def)
    have "establishes d u tasks i ?s1 (worker_callback u ?t i (workerFarm d i r) ?s1)"
      using g1 i _ p1 gc _ rep by (rule worker_callback_establishes) (simp_all add: sl cnt)
    then show ?thesis unfolding eq by (rule via)
  next
    case (AwaitPut v)
    have gc: "goes_to_compute d u tasks i" and v: "v = result_of (compute d u tasks i)"
      and sl: "slot (results s) i = None" and cnt: "count_list (computes s) i = 1"
      using l p AwaitPut by (simp_all add: local_inv_def)
    have eq: "fire d u tasks i s = step ?s1 i v"
      using i p AwaitPut by (simp add: fire_def Let_def)
    have "global_inv tasks (step ?s1 i v)" using g1 i by (rule step_global) (simp add: sl)
    moreover have "local_inv d u tasks (step ?s1 i v) i"
      by (rule step_local) (simp_all add: outcome_compute[OF gc] v cnt gc)
    moreover have "same_except i ?s1 (step ?s1 i v)" by (rule same_except_step)
    ultimately have "establishes d u tasks i ?s1 (step ?s1 i v)"
      unfolding establishes_def by blast
    then show ?thesis unfolding eq by (rule via)
  qed
qed

lemma fire_idle: "\<not> i < length tasks \<or> pending s i = None \<Longrightarrow> fire d u tasks i s = s"
  by (auto simp: fire_def)

lemma fire_inv:
  assumes "inv d u tasks (length tasks) s"
  shows "inv d u tasks (length tasks) (fire d u tasks i s)"
proof (cases "i < length tasks \<and> pending s i \<noteq> None")
  case True
  then obtain p where p: "pending s i = Some p" by blast
  show ?thesis
    using assms True fire_establishes[OF assms _ p] by (blast intro: establishes_inv)
next
  case False
  then have "fire d u tasks i s = s" by (intro fire_idle) blast
  then show ?thesis using assms by simp
qed

lemma fold_fire_inv:
  "inv d u tasks (length tasks) s \<Longrightarrow> inv d u tasks (length tasks) (fold (fire d u tasks) schedule s)"
  by (induction schedule arbitrary: s) (simp_all add: fire_inv)

lemma run_inv: "inv d u tasks (length tasks) (run d u tasks schedule)"
  unfolding run_def by (rule fold_fire_inv) (rule runTasks_inv)

lemma inv_local: "inv d u tasks (length tasks) s \<Longrightarrow> i < length tasks \<Longrightarrow> local_inv d u tasks s i"
  by (simp add: inv_def)

lemma inv_global: "inv d u tasks k s \<Longrightarrow> global_inv tasks s"
  by (simp add: inv_def)

lemma local_inv_pending:
  assumes "local_inv d u tasks s i" "pending s i = Some p"
  shows "slot (results s) i = None"
  using assms by (cases p) (simp_all add: local_inv_def)

lemma local_inv_idle:
  assumes "local_inv d u tasks s i" "pending s i = None"
  shows "slot (results s) i = outcome d u tasks i"
    "count_list (computes s) i = (if goes_to_compute d u tasks i then 1 else 0)"
  using assms by (simp_all add: local_inv_def)

lemma inv_recorded:
  assumes "inv d u tasks (length tasks) s" "i < length tasks" "slot (results s) i \<noteq> None"
  shows "pending s i = None" "slot (results s) i = outcome d u tasks i"
proof -
  have l: "local_inv d u tasks s i" using assms(1,2) by (rule inv_local)
  show p: "pending s i = None"
  proof (cases "pending s i")
    case None then show ?thesis .
  next
    case (Some p)
    then show ?thesis using local_inv_pending[OF l Some] assms(3) by simp
  qed
  show "slot (results s) i = outcome d u tasks i"
    using l p by (rule local_inv_idle(1))
qed

lemma inv_idle:
  assumes "inv d u tasks (length tasks) s" "i < length tasks" "pending s i = None"
  shows "slot (results s) i = outcome d u tasks i"
    "count_list (computes s) i = (if goes_to_compute d u tasks i then 1 else 0)"
  using local_inv_idle[OF inv_local[OF assms(1,2)] assms(3)] by blast+

lemma inv_all_recorded:
  assumes inv: "inv d u tasks (length tasks) s"
    and all: "\<forall>i<length tasks. slot (results s) i \<noteq> None"
  shows "results s = map (outcome d u tasks) [0..<length tasks]"
proof (rule nth_equalityI)
  have le: "length (results s) \<le> length tasks" using inv by (simp add: inv_def global_inv_def)
  have ge: "length tasks \<le> length (results s)"
  proof (rule ccontr)
    assume "\<not> length tasks \<le> length (results s)"
    then have "length (results s) < length tasks" by simp
    moreover have "slot (results s) (length (results s)) = None" by (simp add: slot_def)
    ultimately show False using all by blast
  qed
  show len: "length (results s) = length (map (outcome d u tasks) [0..<length tasks])"
    using le ge by simp
  fix i assume "i < length (results s)"
  then have i: "i < length tasks" using le by simp
  have "slot (results s) i = outcome d u tasks i"
    using inv_recorded(2)[OF inv i] all i by blast
  then show "results s ! i = map (outcome d u tasks) [0..<length tasks] ! i"
    using i \<open>i < length (results s)\<close> by (simp add: slot_def)
qed

lemma inv_toRun_0:
  assumes inv: "inv d u tasks (length tasks) s"
  shows "toRun s = 0 \<longleftrightarrow> (\<forall>i<length tasks. slot (results s) i \<noteq> None)"
proof -
  let ?A = "{i. i < length tasks \<and> slot (results s) i = None}"
  have tr: "toRun s = int (card ?A)" using inv by (simp add: inv_def global_inv_def)
  have fin: "finite ?A" by simp
  have c: "card ?A = 0 \<longleftrightarrow> ?A = {}" using fin by (rule card_0_eq)
  have e: "?A = {} \<longleftrightarrow> (\<forall>i<length tasks. slot (results s) i \<noteq> None)" by auto
  have "toRun s = 0 \<longleftrightarrow> card ?A = 0" unfolding tr by (rule of_nat_eq_0_iff)
  then show ?thesis unfolding c e .
qed

lemma inv_callbacks:
  assumes inv: "inv d u tasks (length tasks) s"
  shows "callbacks s =
     (if \<forall>i<length tasks. slot (results s) i \<noteq> None
      then [(null_val, map (outcome d u tasks) [0..<length tasks])] else [])"
proof -
  have cb: "callbacks s = (if toRun s = 0 then [(null_val, results s)] else [])"
    using inv by (simp add: inv_def global_inv_def)
  show ?thesis
  proof (cases "\<forall>i<length tasks. slot (results s) i \<noteq> None")
    case True
    then have "toRun s = 0" using inv_toRun_0[OF inv] by simp
    then show ?thesis using cb True inv_all_recorded[OF inv True] by simp
  next
    case False
    then have "toRun s \<noteq> 0" using inv_toRun_0[OF inv] by simp
    then show ?thesis using cb False by simp
  qed
qed

lemma delivered:
  assumes "c \<in> set (callbacks (run d u tasks schedule))"
  shows "c = (null_val, map (outcome d u tasks) [0..<length tasks])"
    and "\<forall>i<length tasks. outcome d u tasks i \<noteq> None"
proof -
  let ?s = "run d u tasks schedule"
  have inv: "inv d u tasks (length tasks) ?s" by (rule run_inv)
  have all: "\<forall>i<length tasks. slot (results ?s) i \<noteq> None"
  proof (rule ccontr)
    assume "\<not> (\<forall>i<length tasks. slot (results ?s) i \<noteq> None)"
    then have "callbacks ?s = []" using inv_callbacks[OF inv] by simp
    then show False using assms by simp
  qed
  then have "callbacks ?s = [(null_val, map (outcome d u tasks) [0..<length tasks])]"
    using inv_callbacks[OF inv] by simp
  then show "c = (null_val, map (outcome d u tasks) [0..<length tasks])"
    using assms by simp
  show "\<forall>i<length tasks. outcome d u tasks i \<noteq> None"
  proof (intro allI impI)
    fix i assume i: "i < length tasks"
    then have "slot (results ?s) i \<noteq> None" using all by blast
    then show "outcome d u tasks i \<noteq> None" using inv_recorded(2)[OF inv i] by simp
  qed
qed

lemma quiescent_iff: "quiescent tasks s \<longleftrightarrow> (\<forall>i<length tasks. pending s i = None)"
  by (auto simp: quiescent_def list_all_iff)

lemma quiescent_callbacks:
  assumes "quiescent tasks (run d u tasks schedule)"
  shows "callbacks (run d u tasks schedule) =
     (if \<forall>i<length tasks. outcome d u tasks i \<noteq> None
      then [(null_val, map (outcome d u tasks) [0..<length tasks])] else [])"
proof -
  let ?s = "run d u tasks schedule"
  have inv: "inv d u tasks (length tasks) ?s" by (rule run_inv)
  have "slot (results ?s) i = outcome d u tasks i" if "i < length tasks" for i
    using inv_idle(1)[OF inv that] assms that by (simp add: quiescent_iff)
  then have "(\<forall>i<length tasks. slot (results ?s) i \<noteq> None) \<longleftrightarrow>
      (\<forall>i<length tasks. outcome d u tasks i \<noteq> None)" by simp
  then show ?thesis using inv_callbacks[OF inv] by simp
qed

lemma undecodable_never_delivers:
  assumes "i < length tasks" "outcome d u tasks i = None"
  shows "callbacks (run d u tasks schedule) = []"
proof (rule ccontr)
  assume "callbacks (run d u tasks schedule) \<noteq> []"
  then obtain c where "c \<in> set (callbacks (run d u tasks schedule))"
    by (cases "callbacks (run d u tasks schedule)") auto
  then have "\<forall>i<length tasks. outcome d u tasks i \<noteq> None" by (rule delivered(2))
  then show False using assms by blast
qed

lemma pending_step: "pending (step s i v) = pending s"
  by (simp add: step_def Let_def)

lemma pending_worker_callback_other:
  "j \<noteq> i \<Longrightarrow> pending (worker_callback u t i reply s) j = pending s j"
  by (simp add: worker_callback_def Let_def pending_step)

lemma phase_worker_callback:
  "phase (pending s i) \<le> 1 \<Longrightarrow> phase (pending (worker_callback u t i reply s) i) \<le> 1"
  by (simp add: worker_callback_def Let_def pending_step)

lemma pending_enqueue_other:
  "j \<noteq> i \<Longrightarrow> pending (enqueue d u t i s) j = pending s j"
  by (simp add: enqueue_def worker_def Let_def pending_worker_callback_other)

lemma phase_enqueue:
  assumes a: "phase (pending s i) \<le> 1"
  shows "phase (pending (enqueue d u t i s) i) \<le> 2"
proof (cases "0 < workers u")
  case True
  then show ?thesis by (simp add: enqueue_def worker_def Let_def)
next
  case False
  have "phase (pending (worker_callback u t i (minify d t) (s\<lparr>computes := computes s @ [i]\<rparr>)) i) \<le> 1"
    by (rule phase_worker_callback) (use a in simp)
  then show ?thesis using False by (simp add: enqueue_def worker_def Let_def)
qed

lemma pending_fire_other: "j \<noteq> i \<Longrightarrow> pending (fire d u tasks i s) j = pending s j"
  by (simp add: fire_def Let_def pending_step pending_worker_callback_other pending_enqueue_other
      split: option.splits pend.splits)

lemma phase_fire:
  assumes "i < length tasks"
  shows "phase (pending (fire d u tasks i s) i) \<le> phase (pending s i) - 1"
proof (cases "pending s i")
  case None
  then show ?thesis by (simp add: fire_def)
next
  case (Some p)
  let ?s1 = "s\<lparr>pending := (pending s)(i := None)\<rparr>"
  have p1: "phase (pending ?s1 i) \<le> 1" by simp
  show ?thesis
  proof (cases p)
    case AwaitGet
    have "phase (pending (enqueue d u (tasks ! i) i ?s1) i) \<le> 2"
      using p1 by (rule phase_enqueue)
    then show ?thesis
      using assms Some AwaitGet
      by (simp add: fire_def Let_def pending_step split: option.splits)
  next
    case (AwaitWorker r)
    have "phase (pending (worker_callback u (tasks ! i) i (workerFarm d i r) ?s1) i) \<le> 1"
      using p1 by (rule phase_worker_callback)
    then show ?thesis
      using assms Some AwaitWorker by (simp add: fire_def Let_def)
  next
    case (AwaitPut v)
    then show ?thesis
      using assms Some by (simp add: fire_def Let_def pending_step)
  qed
qed

lemma round_prefix:
  assumes "k \<le> length tasks"
  shows "(\<forall>i<k. phase (pending (fold (fire d u tasks) [0..<k] s) i) \<le> phase (pending s i) - 1) \<and>
         (\<forall>i\<ge>k. pending (fold (fire d u tasks) [0..<k] s) i = pending s i)"
  using assms
proof (induction k)
  case 0
  then show ?case by simp
next
  case (Suc k)
  let ?s = "fold (fire d u tasks) [0..<k] s"
  have k: "k < length tasks" using Suc.prems by simp
  have IH1: "\<forall>i<k. phase (pending ?s i) \<le> phase (pending s i) - 1"
    and IH2: "\<forall>i\<ge>k. pending ?s i = pending s i"
    using Suc.IH k by simp_all
  have eq: "fold (fire d u tasks) [0..<Suc k] s = fire d u tasks k ?s" by simp
  show ?case unfolding eq
  proof (intro conjI allI impI)
    fix i assume "i < Suc k"
    show "phase (pending (fire d u tasks k ?s) i) \<le> phase (pending s i) - 1"
    proof (cases "i = k")
      case True
      have "phase (pending (fire d u tasks k ?s) k) \<le> phase (pending ?s k) - 1"
        using k by (rule phase_fire)
      then show ?thesis using True IH2 by simp
    next
      case False
      then have "i < k" using \<open>i < Suc k\<close> by simp
      then show ?thesis using IH1 False by (simp add: pending_fire_other)
    qed
  next
    fix i assume "Suc k \<le> i"
    then show "pending (fire d u tasks k ?s) i = pending s i"
      using IH2 by (simp add: pending_fire_other)
  qed
qed

lemma round:
  "i < length tasks \<Longrightarrow>
   phase (pending (fold (fire d u tasks) [0..<length tasks] s) i) \<le> phase (pending s i) - 1"
  using round_prefix[of "length tasks" tasks d u s] by simp

lemma phase_le_3: "phase p \<le> 3"
  by (cases p rule: phase.cases) simp_all

lemma phase_0: "phase p = 0 \<Longrightarrow> p = None"
  by (cases p rule: phase.cases) simp_all

lemma drain_quiescent: "quiescent tasks (fold (fire d u tasks) (drain (length tasks)) s)"
proof -
  let ?r = "fold (fire d u tasks) [0..<length tasks]"
  have eq: "fold (fire d u tasks) (drain (length tasks)) s = ?r (?r (?r s))"
    by (simp add: drain_def)
  have "pending (?r (?r (?r s))) i = None" if i: "i < length tasks" for i
  proof -
    have "phase (pending (?r s) i) \<le> 2"
      using round[OF i, of d u s] phase_le_3[of "pending s i"] by linarith
    then have "phase (pending (?r (?r s)) i) \<le> 1"
      using round[OF i, of d u "?r s"] by linarith
    then have "phase (pending (?r (?r (?r s))) i) = 0"
      using round[OF i, of d u "?r (?r s)"] by linarith
    then show ?thesis by (rule phase_0)
  qed
  then show ?thesis unfolding eq by (simp add: quiescent_iff)
qed

lemma run_append: "run d u tasks (xs @ ys) = fold (fire d u tasks) ys (run d u tasks xs)"
  by (simp add: run_def)

lemma run_drain_quiescent:
  "quiescent tasks (run d u tasks (schedule @ drain (length tasks)))"
  unfolding run_append by (rule drain_quiescent)

lemma all_less_iff: "(\<forall>i<n. P i) \<longleftrightarrow> list_all P [0..<n]"
  by (auto simp: list_all_iff)

lemma pending_None_fire: "pending s i = None \<Longrightarrow> pending (fire d u tasks j s) i = None"
proof (cases "j = i")
  case True
  assume "pending s i = None"
  then have "fire d u tasks i s = s" by (intro fire_idle) simp
  then show ?thesis using True \<open>pending s i = None\<close> by simp
next
  case False
  assume "pending s i = None"
  then show ?thesis using False by (simp add: pending_fire_other)
qed

lemma pending_None_fold:
  "pending s i = None \<Longrightarrow> pending (fold (fire d u tasks) schedule s) i = None"
  by (induction schedule arbitrary: s) (simp_all add: pending_None_fire)

lemma hit_pending:
  assumes inv: "inv d u tasks (length tasks) s" and i: "i < length tasks"
    and ngc: "\<not> goes_to_compute d u tasks i"
  shows "pending s i = None \<or> pending s i = Some AwaitGet"
proof (cases "pending s i")
  case None then show ?thesis by simp
next
  case (Some p)
  have l: "local_inv d u tasks s i" using inv i by (rule inv_local)
  show ?thesis using l Some ngc by (cases p) (simp_all add: local_inv_def)
qed

lemma hit_count:
  assumes inv: "inv d u tasks (length tasks) s" and i: "i < length tasks"
    and ngc: "\<not> goes_to_compute d u tasks i"
  shows "count_list (computes s) i = 0"
proof -
  have l: "local_inv d u tasks s i" using inv i by (rule inv_local)
  from hit_pending[OF inv i ngc] show ?thesis
  proof
    assume "pending s i = None"
    then show ?thesis using local_inv_idle(2)[OF l] ngc by simp
  next
    assume "pending s i = Some AwaitGet"
    then show ?thesis using l by (simp add: local_inv_def)
  qed
qed

lemma fire_hit_pending:
  assumes "i < length tasks" "pending s i = Some AwaitGet"
    "cacache_get d i (cache u) (cacheKey (tasks ! i)) = Some bytes"
  shows "pending (fire d u tasks i s) i = None"
  using assms by (simp add: fire_def Let_def pending_step split: option.splits)

lemma hit_settled:
  assumes i: "i < length tasks" and c: "truthy (cache u)"
    and get: "cacache_get d i (cache u) (cacheKey (tasks ! i)) = Some bytes"
    and sch: "i \<in> set schedule"
  shows "pending (run d u tasks schedule) i = None"
proof -
  obtain xs ys where split: "schedule = xs @ i # ys" using sch by (meson split_list)
  let ?s0 = "run d u tasks xs"
  have inv: "inv d u tasks (length tasks) ?s0" by (rule run_inv)
  have ngc: "\<not> goes_to_compute d u tasks i" using c get by (simp add: goes_to_compute_def)
  have "pending (fire d u tasks i ?s0) i = None"
    using hit_pending[OF inv i ngc]
  proof
    assume "pending ?s0 i = None"
    then show ?thesis by (rule pending_None_fire)
  next
    assume "pending ?s0 i = Some AwaitGet"
    then show ?thesis using i get by (intro fire_hit_pending)
  qed
  then have "pending (fold (fire d u tasks) ys (fire d u tasks i ?s0)) i = None"
    by (rule pending_None_fold)
  then show ?thesis by (simp add: split run_def)
qed

lemma slot_delivered:
  assumes "c \<in> set (callbacks (run d u tasks schedule))" "i < length tasks"
  shows "snd c ! i = outcome d u tasks i"
  using delivered(1)[OF assms(1)] assms(2) by simp

lemma no_outcome_no_slot:
  assumes i: "i < length tasks" and o: "outcome d u tasks i = None"
  shows "slot (results (run d u tasks schedule)) i = None"
proof (rule ccontr)
  let ?s = "run d u tasks schedule"
  assume "slot (results ?s) i \<noteq> None"
  then have "slot (results ?s) i = outcome d u tasks i"
    using inv_recorded(2)[OF run_inv i] by blast
  then show False using o \<open>slot (results ?s) i \<noteq> None\<close> by simp
qed


lemma forEach_cong:
  assumes "\<And>t i s. visit d u t i s = visit d' u' t i s"
  shows "forEach d u k ts s = forEach d' u' k ts s"
  by (induction ts arbitrary: k s) (simp_all add: assms)

lemma run_cong:
  assumes v: "\<And>t i s. visit d u t i s = visit d' u' t i s"
    and f: "\<And>i s. fire d u tasks i s = fire d' u' tasks i s"
  shows "run d u tasks schedule = run d' u' tasks schedule"
proof -
  have "fire d u tasks = fire d' u' tasks" using f by (intro ext)
  moreover have "runTasks d u tasks = runTasks d' u' tasks"
    by (simp add: runTasks_def forEach_cong[of d u d' u', OF v])
  ultimately show ?thesis by (simp add: run_def)
qed

lemma run_ignores_cacache_put:
  "run (d\<lparr>cacache_put := put\<rparr>) u tasks schedule = run d u tasks schedule"
proof (rule run_cong)
  show "visit (d\<lparr>cacache_put := put\<rparr>) u t i s = visit d u t i s" for t i s
    by (simp add: visit_def enqueue_def worker_def Let_def)
  show "fire (d\<lparr>cacache_put := put\<rparr>) u tasks i s = fire d u tasks i s" for i s
    by (simp add: fire_def enqueue_def worker_def Let_def split: option.splits pend.splits)
qed

lemma run_worker_count_sign:
  assumes c: "cache u' = cache u" and w: "0 < workers u' \<longleftrightarrow> 0 < workers u"
  shows "run d u' tasks schedule = run d u tasks schedule"
proof (rule run_cong)
  have wc: "worker_callback u' = worker_callback u"
    by (intro ext) (simp add: worker_callback_def Let_def c)
  have en: "enqueue d u' = enqueue d u"
    by (intro ext) (simp add: enqueue_def worker_def Let_def w wc)
  show "visit d u' t i s = visit d u t i s" for t i s
    by (simp add: visit_def c en)
  show "fire d u' tasks i s = fire d u tasks i s" for i s
    unfolding fire_def c en wc by (rule refl)
qed

lemma put_pending:
  assumes i: "i < length tasks" and p: "pending (run d u tasks schedule) i = Some (AwaitPut v)"
  shows "slot (results (run d u tasks schedule)) i = None"
    and "callbacks (run d u tasks schedule) = []"
    and "outcome d u tasks i = Some v"
    and "slot (results (run d u tasks (schedule @ [i]))) i = Some v"
proof -
  let ?s = "run d u tasks schedule"
  have inv: "inv d u tasks (length tasks) ?s" by (rule run_inv)
  have l: "local_inv d u tasks ?s i" using inv i by (rule inv_local)
  show sl: "slot (results ?s) i = None" using l p by (rule local_inv_pending)
  have "\<not> (\<forall>j<length tasks. slot (results ?s) j \<noteq> None)" using sl i by blast
  then show "callbacks ?s = []" using inv_callbacks[OF inv] by simp
  have gc: "goes_to_compute d u tasks i" and v: "v = result_of (compute d u tasks i)"
    using l p by (simp_all add: local_inv_def)
  show "outcome d u tasks i = Some v" using outcome_compute[OF gc] v by simp
  have "fire d u tasks i ?s = step (?s\<lparr>pending := (pending ?s)(i := None)\<rparr>) i v"
    using i p by (simp add: fire_def Let_def)
  then show "slot (results (run d u tasks (schedule @ [i]))) i = Some v"
    by (simp add: run_append step_fields slot_assign)
qed

lemma agree_on_outcome:
  assumes "agree_on d tasks d' tasks' i"
  shows "outcome d' u tasks' i = outcome d u tasks i"
proof -
  have t: "tasks' ! i = tasks ! i" and m: "minify d' (tasks ! i) = minify d (tasks ! i)"
    and e: "encode d' = encode d" and w: "workerFarm d' i = workerFarm d i"
    and g: "cacache_get d' i = cacache_get d i" and p: "JSON_parse d' = JSON_parse d"
    using assms by (simp_all add: agree_on_def)
  have c: "compute d' u tasks' i = compute d u tasks i"
    unfolding compute_def request_def t e w m by (rule refl)
  show ?thesis unfolding outcome_def t g p c by (rule refl)
qed

lemma callbacks_shape:
  "callbacks (run d u tasks schedule) = [] \<or>
   callbacks (run d u tasks schedule) = [(null_val, map (outcome d u tasks) [0..<length tasks])]"
  using inv_callbacks[OF run_inv, of d u tasks schedule] by (simp split: if_splits)


lemma SerializeJSONObject_keys: "fst ` set (SerializeJSONObject f ps) \<subseteq> fst ` set ps"
proof (induction ps)
  case Nil
  then show ?case by simp
next
  case (Cons p ps)
  obtain k x where p: "p = (k, x)" by (cases p)
  show ?case using Cons by (auto simp: p split: option.splits)
qed

lemma request_with_cacheKey:
  assumes root: "encode d [] (task_object t) = Same"
    and key: "encode d ''cacheKey'' (Prim (VStr (cacheKey t))) = Same"
  shows "\<exists>members. request d t = Some (JObj ((''cacheKey'', JStr (cacheKey t)) # members))"
proof -
  have "SerializeJSONProperty (encode d) ''cacheKey'' (Prim (VStr (cacheKey t))) = Some (JStr (cacheKey t))"
    using key by simp
  then show ?thesis
    using root by (simp add: request_def JSON_stringify_def task_object_def)
qed

lemma request_without_cacheKey:
  assumes root: "encode d [] (task_object t) = Same"
    and key: "encode d ''cacheKey'' (Prim (VStr (cacheKey t))) = Swap VUndefined"
  shows "\<exists>members. request d t = Some (JObj members) \<and> ''cacheKey'' \<notin> fst ` set members"
proof -
  let ?rest = "[(''file'', Prim (VStr (task_file t))),
      (''input'', Prim (VStr (input t))),
      (''sourceMap'', sourceMap t),
      (''inputSourceMap'', inputSourceMap t),
      (''commentsFile'', commentsFile t),
      (''extractComments'', extractComments t),
      (''uglifyOptions'', uglifyOptions t)]"
  have k: "SerializeJSONProperty (encode d) ''cacheKey'' (Prim (VStr (cacheKey t))) = None"
    using key by simp
  have obj: "task_object t = Object ((''cacheKey'', Prim (VStr (cacheKey t))) # ?rest)"
    by (simp add: task_object_def)
  have "SerializeJSONProperty (encode d) [] (Object ((''cacheKey'', Prim (VStr (cacheKey t))) # ?rest))
      = Some (JObj (SerializeJSONObject (encode d) ?rest))"
    using root k unfolding obj by (simp del: SerializeJSONProperty.simps add: SerializeJSONProperty.simps[of _ "[]"])
  then have req: "request d t = Some (JObj (SerializeJSONObject (encode d) ?rest))"
    by (simp add: request_def JSON_stringify_def obj)
  have "fst ` set (SerializeJSONObject (encode d) ?rest) \<subseteq> fst ` set ?rest"
    by (rule SerializeJSONObject_keys)
  then have "''cacheKey'' \<notin> fst ` set (SerializeJSONObject (encode d) ?rest)" by auto
  then show ?thesis using req by blast
qed

lemma worker_request:
  assumes i: "i < length tasks" and p: "pending (run d u tasks schedule) i = Some (AwaitWorker r)"
  shows "r = request d (tasks ! i)" and "0 < workers u"
  using inv_local[OF run_inv i, of d u schedule] p by (simp_all add: local_inv_def)


lemma visit_inline_pending:
  assumes "\<not> truthy (cache u)" "\<not> 0 < workers u"
  shows "pending (visit d u t i s) = pending s"
  using assms by (simp add: visit_def enqueue_def worker_def worker_callback_def Let_def pending_step)

lemma forEach_inline_pending:
  assumes "\<not> truthy (cache u)" "\<not> 0 < workers u"
  shows "pending (forEach d u k ts s) = pending s"
  by (induction ts arbitrary: k s) (simp_all add: visit_inline_pending[OF assms])

lemma runTasks_inline_quiescent:
  assumes "\<not> truthy (cache u)" "\<not> 0 < workers u"
  shows "quiescent tasks (runTasks d u tasks)"
  by (simp add: quiescent_iff runTasks_def forEach_inline_pending[OF assms] initial_def)

lemma constructor_true:
  "constructor d (Boolean True) = \<lparr> cache = findCacheDir d, workers = int (cpus d) - 1 \<rparr>"
  by (simp add: constructor_def options_of_def)

lemma constructor_true_options:
  "constructor d (Options (Prim (VBool True)) (WBool True)) =
     \<lparr> cache = findCacheDir d, workers = int (cpus d) - 1 \<rparr>"
  by (simp add: constructor_def options_of_def)

lemma constructor_false:
  "constructor d (Boolean False) = \<lparr> cache = Prim (VBool False), workers = min 0 (int (cpus d) - 1) \<rparr>"
  by (simp add: constructor_def options_of_def)

lemma constructor_no_argument:
  "constructor d NoArgument = \<lparr> cache = undefined_val, workers = min 0 (int (cpus d) - 1) \<rparr>"
  by (simp add: constructor_def options_of_def)

lemma constructor_number:
  "constructor d (Options c (WNum n)) =
     \<lparr> cache = (if c = Prim (VBool True) then findCacheDir d else c),
       workers = min n (int (cpus d) - 1) \<rparr>"
  by (simp add: constructor_def options_of_def)

lemma miss_computes_once:
  assumes i: "i < length tasks" and gc: "goes_to_compute d u tasks i"
    and p: "pending (run d u tasks schedule) i \<noteq> Some AwaitGet"
  shows "count_list (computes (run d u tasks schedule)) i = 1"
proof -
  let ?s = "run d u tasks schedule"
  have l: "local_inv d u tasks ?s i" using run_inv i by (rule inv_local)
  show ?thesis
  proof (cases "pending ?s i")
    case None
    then show ?thesis using local_inv_idle(2)[OF l] gc by simp
  next
    case (Some q)
    then show ?thesis using l p by (cases q) (simp_all add: local_inv_def)
  qed
qed

lemma fire_get_rejected:
  assumes "i < length tasks" "pending s i = Some AwaitGet"
    "cacache_get d i (cache u) (cacheKey (tasks ! i)) = None"
  shows "fire d u tasks i s = enqueue d u (tasks ! i) i (s\<lparr>pending := (pending s)(i := None)\<rparr>)"
  using assms by (simp add: fire_def Let_def)

lemma fire_worker_reply:
  assumes "i < length tasks" "pending s i = Some (AwaitWorker r)"
  shows "fire d u tasks i s =
     worker_callback u (tasks ! i) i (workerFarm d i r) (s\<lparr>pending := (pending s)(i := None)\<rparr>)"
  using assms by (simp add: fire_def Let_def)

lemma fire_put_settled:
  assumes "i < length tasks" "pending s i = Some (AwaitPut v)"
  shows "fire d u tasks i s = step (s\<lparr>pending := (pending s)(i := None)\<rparr>) i v"
  using assms by (simp add: fire_def Let_def)

lemma enqueue_pooled:
  assumes "0 < workers u"
  shows "enqueue d u t i s =
     s\<lparr>computes := computes s @ [i], pending := (pending s)(i \<mapsto> AwaitWorker (request d t))\<rparr>"
  using assms by (simp add: enqueue_def worker_def Let_def request_def)

lemma enqueue_inline:
  assumes "\<not> 0 < workers u"
  shows "enqueue d u t i s = worker_callback u t i (minify d t) (s\<lparr>computes := computes s @ [i]\<rparr>)"
  using assms by (simp add: enqueue_def worker_def Let_def)

lemma worker_callback_put:
  assumes "truthy (cache u)" "\<not> truthy (get_prop data ''error'')"
  shows "worker_callback u t i (Inr data) s =
     s\<lparr>writes := writes s @ [(cache u, cacheKey t, JSON_stringify no_replacer (Object data))],
       pending := (pending s)(i \<mapsto> AwaitPut (Object data))\<rparr>"
  using assms by (simp add: worker_callback_def Let_def)

lemma succeeds_data:
  assumes "succeeds d u tasks i"
  obtains data where "compute d u tasks i = Inr data" "\<not> truthy (get_prop data ''error'')"
    "result_of (compute d u tasks i) = Object data"
  using assms by (auto simp: succeeds_def result_of_def split: sum.splits)

lemma writes_step: "writes (step s i v) = writes s"
  by (simp add: step_def Let_def)

lemma writes_worker_callback: "set (writes s) \<subseteq> set (writes (worker_callback u t i reply s))"
  by (auto simp: worker_callback_def Let_def writes_step)

lemma writes_enqueue: "set (writes s) \<subseteq> set (writes (enqueue d u t i s))"
proof (cases "0 < workers u")
  case True
  then show ?thesis by (simp add: enqueue_pooled)
next
  case False
  then show ?thesis
    using writes_worker_callback[of "s\<lparr>computes := computes s @ [i]\<rparr>" u t i "minify d t"]
    by (simp add: enqueue_inline)
qed

lemma writes_fire: "set (writes s) \<subseteq> set (writes (fire d u tasks j s))"
proof (cases "j < length tasks \<and> pending s j \<noteq> None")
  case False
  then have "fire d u tasks j s = s" by (intro fire_idle) blast
  then show ?thesis by simp
next
  case True
  then obtain p where j: "j < length tasks" and p: "pending s j = Some p" by blast
  let ?s1 = "s\<lparr>pending := (pending s)(j := None)\<rparr>"
  have w1: "writes ?s1 = writes s" by simp
  show ?thesis
  proof (cases p)
    case AwaitGet
    show ?thesis
    proof (cases "cacache_get d j (cache u) (cacheKey (tasks ! j))")
      case None
      show ?thesis
        using writes_enqueue[of ?s1 d u "tasks ! j" j]
        unfolding fire_get_rejected[OF j p[unfolded AwaitGet] None] by simp
    next
      case (Some bytes)
      then show ?thesis using j p AwaitGet
        by (simp add: fire_def Let_def writes_step split: option.splits)
    qed
  next
    case (AwaitWorker r)
    show ?thesis
      using writes_worker_callback[of ?s1 u "tasks ! j" j "workerFarm d j r"]
      unfolding fire_worker_reply[OF j p[unfolded AwaitWorker]] by simp
  next
    case (AwaitPut v)
    show ?thesis
      unfolding fire_put_settled[OF j p[unfolded AwaitPut]] by (simp add: writes_step)
  qed
qed

lemma slot_step_other: "i \<noteq> j \<Longrightarrow> slot (results (step s j v)) i = slot (results s) i"
  by (simp add: step_fields slot_assign)

lemma slot_fire_other:
  assumes "inv d u tasks (length tasks) s" "i \<noteq> j"
  shows "slot (results (fire d u tasks j s)) i = slot (results s) i"
proof (cases "j < length tasks \<and> pending s j \<noteq> None")
  case False
  then have "fire d u tasks j s = s" by (intro fire_idle) blast
  then show ?thesis by simp
next
  case True
  then obtain p where j: "j < length tasks" and p: "pending s j = Some p" by blast
  have "same_except j s (fire d u tasks j s)"
    using fire_establishes[OF assms(1) j p] by (simp add: establishes_def)
  then show ?thesis using assms(2) by (simp add: same_except_def)
qed


lemma write_issued:
  assumes inv: "inv d u tasks (length tasks) s" and i: "i < length tasks"
    and c: "truthy (cache u)" and gc: "goes_to_compute d u tasks i"
    and su: "succeeds d u tasks i"
    and p: "(\<exists>r. pending s i = Some (AwaitWorker r)) \<or>
            (pending s i = Some AwaitGet \<and> \<not> 0 < workers u)"
  shows "pending (fire d u tasks i s) i = Some (AwaitPut (result_of (compute d u tasks i)))"
    and "write_of d u tasks i \<in> set (writes (fire d u tasks i s))"
    and "results (fire d u tasks i s) = results s"
    and "callbacks (fire d u tasks i s) = callbacks s"
proof -
  obtain data where data: "compute d u tasks i = Inr data"
    and ne: "\<not> truthy (get_prop data ''error'')"
    and res: "result_of (compute d u tasks i) = Object data"
    using su by (rule succeeds_data)
  have l: "local_inv d u tasks s i" using inv i by (rule inv_local)
  let ?s1 = "s\<lparr>pending := (pending s)(i := None)\<rparr>"
  have "\<exists>s0. fire d u tasks i s = worker_callback u (tasks ! i) i (Inr data) s0 \<and>
      results s0 = results s \<and> callbacks s0 = callbacks s"
    using p
  proof
    assume "\<exists>r. pending s i = Some (AwaitWorker r)"
    then obtain r where r: "pending s i = Some (AwaitWorker r)" by blast
    have "r = request d (tasks ! i)" and "0 < workers u"
      using l r by (simp_all add: local_inv_def)
    then have "workerFarm d i r = Inr data" using data by (simp add: compute_def)
    then have "fire d u tasks i s = worker_callback u (tasks ! i) i (Inr data) ?s1"
      using fire_worker_reply[OF i r, of d u] by simp
    then show ?thesis by (intro exI[of _ ?s1]) simp
  next
    assume a: "pending s i = Some AwaitGet \<and> \<not> 0 < workers u"
    have get: "cacache_get d i (cache u) (cacheKey (tasks ! i)) = None"
      using gc c by (simp add: goes_to_compute_def)
    have m: "minify d (tasks ! i) = Inr data" using a data by (simp add: compute_def)
    let ?s2 = "?s1\<lparr>computes := computes ?s1 @ [i]\<rparr>"
    have "fire d u tasks i s = worker_callback u (tasks ! i) i (Inr data) ?s2"
      using fire_get_rejected[OF i _ get] a enqueue_inline[of u d "tasks ! i" i ?s1] m by simp
    then show ?thesis by (intro exI[of _ ?s2]) simp
  qed
  then obtain s0 where f: "fire d u tasks i s = worker_callback u (tasks ! i) i (Inr data) s0"
    and r0: "results s0 = results s" and c0: "callbacks s0 = callbacks s" by blast
  note put = worker_callback_put[OF c ne, of "tasks ! i" i s0]
  show "pending (fire d u tasks i s) i = Some (AwaitPut (result_of (compute d u tasks i)))"
    unfolding f put res by simp
  show "write_of d u tasks i \<in> set (writes (fire d u tasks i s))"
    unfolding f put write_of_def res by simp
  show "results (fire d u tasks i s) = results s" unfolding f put using r0 by simp
  show "callbacks (fire d u tasks i s) = callbacks s" unfolding f put using c0 by simp
qed

lemma recorded_by_settlement:
  assumes inv: "inv d u tasks (length tasks) s" and i: "i < length tasks"
    and c: "truthy (cache u)" and gc: "goes_to_compute d u tasks i"
    and su: "succeeds d u tasks i"
    and before: "slot (results s) i = None"
    and after: "slot (results (fire d u tasks j s)) i \<noteq> None"
  shows "j = i \<and> pending s i = Some (AwaitPut (result_of (compute d u tasks i)))"
proof -
  have ji: "j = i"
  proof (rule ccontr)
    assume "j \<noteq> i"
    then have "slot (results (fire d u tasks j s)) i = slot (results s) i"
      using slot_fire_other[OF inv, of i j] by simp
    then show False using before after by simp
  qed
  have l: "local_inv d u tasks s i" using inv i by (rule inv_local)
  have get: "cacache_get d i (cache u) (cacheKey (tasks ! i)) = None"
    using gc c by (simp add: goes_to_compute_def)
  have "pending s i = Some (AwaitPut (result_of (compute d u tasks i)))"
  proof (cases "pending s i")
    case None
    then have "fire d u tasks i s = s" by (intro fire_idle) simp
    then show ?thesis using before after ji by simp
  next
    case (Some p)
    show ?thesis
    proof (cases p)
      case AwaitGet
      show ?thesis
      proof (cases "0 < workers u")
        case True
        have "results (fire d u tasks i s) = results s"
          using fire_get_rejected[OF i Some[unfolded AwaitGet] get, of] enqueue_pooled[OF True, of d]
          by simp
        then show ?thesis using before after ji by simp
      next
        case False
        have "results (fire d u tasks i s) = results s"
          using write_issued(3)[OF inv i c gc su] Some AwaitGet False by blast
        then show ?thesis using before after ji by simp
      qed
    next
      case (AwaitWorker r)
      have "results (fire d u tasks i s) = results s"
        using write_issued(3)[OF inv i c gc su] Some AwaitWorker by blast
      then show ?thesis using before after ji by simp
    next
      case (AwaitPut v)
      then show ?thesis using l Some by (simp add: local_inv_def)
    qed
  qed
  then show ?thesis using ji by simp
qed

lemma visit_cached:
  assumes "truthy (cache u)"
  shows "visit d u t k s = s\<lparr>pending := (pending s)(k \<mapsto> AwaitGet)\<rparr>"
  using assms by (simp add: visit_def)

lemma forEach_cached:
  assumes c: "truthy (cache u)"
  shows "results (forEach d u k ts s) = results s \<and>
         (pending (forEach d u k ts s) i = pending s i \<or>
          pending (forEach d u k ts s) i = Some AwaitGet)"
proof (induction ts arbitrary: k s)
  case Nil
  then show ?case by simp
next
  case (Cons t ts)
  let ?s' = "s\<lparr>pending := (pending s)(k \<mapsto> AwaitGet)\<rparr>"
  have eq: "forEach d u k (t # ts) s = forEach d u (Suc k) ts ?s'"
    by (simp add: visit_cached[OF c])
  have r: "results (forEach d u (Suc k) ts ?s') = results ?s'"
    and p: "pending (forEach d u (Suc k) ts ?s') i = pending ?s' i \<or>
            pending (forEach d u (Suc k) ts ?s') i = Some AwaitGet"
    using Cons.IH[of "Suc k" ?s'] by blast+
  have "pending ?s' i = pending s i \<or> pending ?s' i = Some AwaitGet" by simp
  then have "pending (forEach d u (Suc k) ts ?s') i = pending s i \<or>
             pending (forEach d u (Suc k) ts ?s') i = Some AwaitGet"
    using p by metis
  then show ?case unfolding eq using r by simp
qed

lemma runTasks_cached:
  assumes c: "truthy (cache u)"
  shows "slot (results (runTasks d u tasks)) i = None"
    and "pending (runTasks d u tasks) i = None \<or> pending (runTasks d u tasks) i = Some AwaitGet"
  using forEach_cached[OF c, of d 0 tasks "initial\<lparr>toRun := int (length tasks)\<rparr>" i]
  by (auto simp: runTasks_def initial_def slot_def)

lemma write_before_record:
  assumes i: "i < length tasks"
    and c: "truthy (cache u)" and gc: "goes_to_compute d u tasks i"
    and su: "succeeds d u tasks i"
  shows "slot (results (run d u tasks schedule)) i \<noteq> None \<or>
         (\<exists>v. pending (run d u tasks schedule) i = Some (AwaitPut v)) \<Longrightarrow>
         write_of d u tasks i \<in> set (writes (run d u tasks schedule))"
proof (induction schedule rule: rev_induct)
  case Nil
  then show ?case using runTasks_cached[OF c, of d tasks i] by (auto simp: run_def)
next
  case (snoc j xs)
  let ?s = "run d u tasks xs"
  let ?s' = "fire d u tasks j ?s"
  have eq: "run d u tasks (xs @ [j]) = ?s'" by (simp add: run_append)
  have inv: "inv d u tasks (length tasks) ?s" by (rule run_inv)
  have mono: "set (writes ?s) \<subseteq> set (writes ?s')" by (rule writes_fire)
  have l: "local_inv d u tasks ?s i" using inv i by (rule inv_local)
  have a: "slot (results ?s') i \<noteq> None \<or> (\<exists>v. pending ?s' i = Some (AwaitPut v))"
    using snoc.prems unfolding eq .
  show ?case unfolding eq
  proof (cases "slot (results ?s) i \<noteq> None \<or> (\<exists>v. pending ?s i = Some (AwaitPut v))")
    case True
    then show "write_of d u tasks i \<in> set (writes ?s')" using snoc.IH mono by blast
  next
    case False
    then have before: "slot (results ?s) i = None"
      and np: "\<forall>v. pending ?s i \<noteq> Some (AwaitPut v)" by simp_all
    have nrec: "slot (results ?s') i = None"
    proof (rule ccontr)
      assume "slot (results ?s') i \<noteq> None"
      then have "pending ?s i = Some (AwaitPut (result_of (compute d u tasks i)))"
        using recorded_by_settlement[OF inv i c gc su before] by blast
      then show False using np by simp
    qed
    then obtain v where v: "pending ?s' i = Some (AwaitPut v)" using a by blast
    have ji: "j = i"
    proof (rule ccontr)
      assume "j \<noteq> i"
      then have "pending ?s' i = pending ?s i" by (simp add: pending_fire_other)
      then show False using v np by metis
    qed
    have get: "cacache_get d i (cache u) (cacheKey (tasks ! i)) = None"
      using gc c by (simp add: goes_to_compute_def)
    have "(\<exists>r. pending ?s i = Some (AwaitWorker r)) \<or>
          (pending ?s i = Some AwaitGet \<and> \<not> 0 < workers u)"
    proof (cases "pending ?s i")
      case None
      then have "fire d u tasks i ?s = ?s" by (intro fire_idle) simp
      then show ?thesis using v np ji by simp
    next
      case (Some p)
      show ?thesis
      proof (cases p)
        case AwaitGet
        show ?thesis
        proof (cases "0 < workers u")
          case True
          have "pending ?s' i = Some (AwaitWorker (request d (tasks ! i)))"
            using fire_get_rejected[OF i Some[unfolded AwaitGet] get] enqueue_pooled[OF True, of d] ji
            by simp
          then show ?thesis using v by simp
        next
          case False
          then show ?thesis using Some AwaitGet by simp
        qed
      next
        case (AwaitWorker r)
        then show ?thesis using Some by simp
      next
        case (AwaitPut w)
        then show ?thesis using Some np by simp
      qed
    qed
    then show "write_of d u tasks i \<in> set (writes ?s')"
      using write_issued(2)[OF inv i c gc su] ji by blast
  qed
qed






section \<open>The claims\<close>

lemmas run_defs = run_def runTasks_def visit_def enqueue_def worker_def worker_callback_def step_def
  assign_def initial_def get_prop_def fire_def JSON_stringify_def no_replacer_def task_object_def
  constructor_def options_of_def Let_def quiescent_def outcome_def compute_def result_of_def
  request_def slot_def worker_unit_def reply_image_def props_image_def

lemmas sample_defs = sample_deps_def sample_task_def sample_minify_def sample_encode_def
  sample_decode_def sample_batch_def failing_batch_def verbose_minify_def verbose_deps_def

text \<open>
  C1.  Whatever the order in which the operations settle and whichever tasks hit the
  cache, every call of the completion callback passes null and a results array with
  one entry per task, entry \<open>i\<close> being the outcome of task \<open>i\<close>.  Once nothing is in
  flight, and every task has an outcome, the callback has been called with exactly
  that array; every schedule can be continued until nothing is in flight.  For the
  empty batch \<^verbatim>\<open>runTasks\<close> itself calls the callback, with an empty array.
\<close>

theorem runTasks_results_follow_task_order:
  "(\<forall>c \<in> set (callbacks (run d u tasks schedule)).
       fst c = null_val \<and> length (snd c) = length tasks \<and>
       (\<forall>i<length tasks. snd c ! i = outcome d u tasks i \<and> outcome d u tasks i \<noteq> None)) \<and>
   (quiescent tasks (run d u tasks schedule) \<and> (\<forall>i<length tasks. outcome d u tasks i \<noteq> None) \<longrightarrow>
      callbacks (run d u tasks schedule) = [(null_val, map (outcome d u tasks) [0..<length tasks])]) \<and>
   quiescent tasks (run d u tasks (schedule @ drain (length tasks))) \<and>
   callbacks (runTasks d u []) = [(null_val, [])]"
proof (intro conjI ballI impI)
  fix c assume c: "c \<in> set (callbacks (run d u tasks schedule))"
  have eq: "c = (null_val, map (outcome d u tasks) [0..<length tasks])"
    and ne: "\<forall>i<length tasks. outcome d u tasks i \<noteq> None"
    using delivered[OF c] by blast+
  show "fst c = null_val" by (simp add: eq)
  show "length (snd c) = length tasks" by (simp add: eq)
  show "\<forall>i<length tasks. snd c ! i = outcome d u tasks i \<and> outcome d u tasks i \<noteq> None"
    using ne by (simp add: eq)
next
  assume "quiescent tasks (run d u tasks schedule) \<and> (\<forall>i<length tasks. outcome d u tasks i \<noteq> None)"
  then show "callbacks (run d u tasks schedule) = [(null_val, map (outcome d u tasks) [0..<length tasks])]"
    using quiescent_callbacks[of tasks d u schedule] by simp
next
  show "quiescent tasks (run d u tasks (schedule @ drain (length tasks)))"
    by (rule run_drain_quiescent)
next
  show "callbacks (runTasks d u []) = [(null_val, [])]"
    by (simp add: runTasks_def initial_def)
qed

theorem runTasks_results_follow_task_order_witness:
  "callbacks (run sample_deps (constructor sample_deps (Boolean True)) sample_batch [2, 1, 0, 2, 1, 1]) =
     [(null_val,
       [Some (Object []),
        Some (Object [(''code'', Prim (VStr ''b = 2;''))]),
        Some (Object [(''error'', Object [(''message'', Prim (VStr ''Unexpected token''))])])])]"
proof -
  let ?u = "constructor sample_deps (Boolean True)"
  let ?s = "run sample_deps ?u sample_batch [2, 1, 0, 2, 1, 1]"
  have q: "quiescent sample_batch ?s"
    by (simp add: run_defs sample_defs)
  have o: "\<forall>i<length sample_batch. outcome sample_deps ?u sample_batch i \<noteq> None"
    by (simp add: all_less_iff run_defs sample_defs)
  have "callbacks ?s = [(null_val, map (outcome sample_deps ?u sample_batch) [0..<length sample_batch])]"
    using runTasks_results_follow_task_order[of sample_deps ?u sample_batch "[2, 1, 0, 2, 1, 1]"] q o
    by blast
  then show ?thesis
    by (simp add: run_defs sample_defs)
qed

text \<open>
  C2.  With a cache configured, when the lookup for the key of task \<open>i\<close> resolves, the
  worker is never called for task \<open>i\<close>, in no state of no run; and when the stored
  text deserialises to \<open>v\<close>, slot \<open>i\<close> of the results holds \<open>v\<close> once the lookup has
  settled, and the completion callback receives \<open>v\<close> at index \<open>i\<close>.
\<close>

theorem cache_hit_bypasses_compute:
  assumes "i < length tasks" and "truthy (cache u)"
    and "cacache_get d i (cache u) (cacheKey (tasks ! i)) = Some bytes"
  shows "count_list (computes (run d u tasks schedule)) i = 0 \<and>
         (\<forall>v. JSON_parse d bytes = Some v \<longrightarrow>
            (i \<in> set schedule \<longrightarrow> slot (results (run d u tasks schedule)) i = Some v) \<and>
            (\<forall>c \<in> set (callbacks (run d u tasks schedule)). snd c ! i = Some v))"
proof (intro conjI impI ballI allI)
  have ngc: "\<not> goes_to_compute d u tasks i"
    using assms(2,3) by (simp add: goes_to_compute_def)
  have out: "outcome d u tasks i = JSON_parse d bytes"
    using assms(2,3) by (simp add: outcome_def)
  show "count_list (computes (run d u tasks schedule)) i = 0"
    using run_inv assms(1) ngc by (rule hit_count)
  show "slot (results (run d u tasks schedule)) i = Some v"
    if "JSON_parse d bytes = Some v" "i \<in> set schedule" for v
  proof -
    have "pending (run d u tasks schedule) i = None"
      using assms(1,2,3) that(2) by (rule hit_settled)
    then show ?thesis using inv_idle(1)[OF run_inv assms(1)] out that(1) by simp
  qed
  show "snd c ! i = Some v"
    if "JSON_parse d bytes = Some v" "c \<in> set (callbacks (run d u tasks schedule))" for v c
    using slot_delivered[OF that(2) assms(1)] out that(1) by simp
qed

theorem cache_hit_bypasses_compute_witness:
  "0 < length sample_batch \<and>
   truthy (cache (constructor sample_deps (Boolean True))) \<and>
   cacache_get sample_deps 0 (cache (constructor sample_deps (Boolean True)))
     (cacheKey (sample_batch ! 0)) = Some ''{}'' \<and>
   JSON_parse sample_deps ''{}'' = Some (Object []) \<and>
   count_list (computes (run sample_deps (constructor sample_deps (Boolean True)) sample_batch [2, 1, 0, 2, 1, 1])) 0 = 0 \<and>
   slot (results (run sample_deps (constructor sample_deps (Boolean True)) sample_batch [2, 1, 0, 2, 1, 1])) 0 = Some (Object [])"
proof -
  let ?u = "constructor sample_deps (Boolean True)"
  have h1: "0 < length sample_batch" by (simp add: sample_defs)
  have h2: "truthy (cache ?u)" by (simp add: run_defs sample_defs)
  have h3: "cacache_get sample_deps 0 (cache ?u) (cacheKey (sample_batch ! 0)) = Some ''{}''"
    by (simp add: sample_defs)
  have h4: "JSON_parse sample_deps ''{}'' = Some (Object [])" by (simp add: sample_defs)
  have h5: "0 \<in> set [2, 1, 0, 2, 1, 1 :: nat]" by simp
  show ?thesis
    using cache_hit_bypasses_compute[OF h1 h2 h3, of "[2, 1, 0, 2, 1, 1]"] h1 h2 h3 h4 h5
    by blast
qed

text \<open>
  C3.  A missing key and a failed read reject the lookup, and \<^verbatim>\<open>enqueue\<close> is the
  rejection handler.  A stored text that does not deserialise is another matter: the
  lookup resolves, \<^verbatim>\<open>JSON.parse\<close> throws inside the fulfilment handler, and the
  rejection handler of the same \<^verbatim>\<open>then\<close> does not see it.  For the batch of one task
  whose cache entry is not JSON, in every run: the worker is never called, the slot
  is never written, and the completion callback is never called.
\<close>

theorem undecodable_entry_is_not_recomputed:
  "count_list (computes (run sample_deps (constructor sample_deps (Boolean True))
      [sample_task ''X'' ''x = 1;''] schedule)) 0 = 0 \<and>
   slot (results (run sample_deps (constructor sample_deps (Boolean True))
      [sample_task ''X'' ''x = 1;''] schedule)) 0 = None \<and>
   callbacks (run sample_deps (constructor sample_deps (Boolean True))
      [sample_task ''X'' ''x = 1;''] schedule) = []"
proof -
  let ?u = "constructor sample_deps (Boolean True)"
  let ?tasks = "[sample_task ''X'' ''x = 1;'']"
  have i: "0 < length ?tasks" by simp
  have ngc: "\<not> goes_to_compute sample_deps ?u ?tasks 0"
    by (simp add: goes_to_compute_def run_defs sample_defs)
  have out: "outcome sample_deps ?u ?tasks 0 = None"
    by (simp add: run_defs sample_defs)
  show ?thesis
    using hit_count[OF run_inv i ngc] no_outcome_no_slot[OF i out]
      undecodable_never_delivers[OF i out] by blast
qed

text \<open>
  C6.  The batch of two tasks whose second cache entry is not JSON: the first task is
  computed and recorded, and when nothing is in flight any more the completion
  callback has still not been called, whatever happened before.
\<close>

theorem callback_never_called_after_undecodable_entry:
  "quiescent [sample_task ''B'' ''b = 2;'', sample_task ''X'' ''x = 1;'']
     (run sample_deps (constructor sample_deps (Boolean True))
        [sample_task ''B'' ''b = 2;'', sample_task ''X'' ''x = 1;''] (schedule @ drain 2)) \<and>
   slot (results (run sample_deps (constructor sample_deps (Boolean True))
        [sample_task ''B'' ''b = 2;'', sample_task ''X'' ''x = 1;''] (schedule @ drain 2))) 0
     = Some (Object [(''code'', Prim (VStr ''b = 2;''))]) \<and>
   callbacks (run sample_deps (constructor sample_deps (Boolean True))
        [sample_task ''B'' ''b = 2;'', sample_task ''X'' ''x = 1;''] (schedule @ drain 2)) = []"
proof -
  let ?u = "constructor sample_deps (Boolean True)"
  let ?tasks = "[sample_task ''B'' ''b = 2;'', sample_task ''X'' ''x = 1;'']"
  let ?s = "run sample_deps ?u ?tasks (schedule @ drain 2)"
  have q: "quiescent ?tasks ?s"
    using run_drain_quiescent[of ?tasks sample_deps ?u schedule] by (simp add: numeral_2_eq_2)
  have i0: "0 < length ?tasks" and i1: "1 < length ?tasks" by simp_all
  have out1: "outcome sample_deps ?u ?tasks 1 = None"
    by (simp add: run_defs sample_defs)
  have out0: "outcome sample_deps ?u ?tasks 0 = Some (Object [(''code'', Prim (VStr ''b = 2;''))])"
    by (simp add: run_defs sample_defs)
  have "pending ?s 0 = None" using q by (simp add: quiescent_iff)
  then have "slot (results ?s) 0 = Some (Object [(''code'', Prim (VStr ''b = 2;''))])"
    using inv_idle(1)[OF run_inv i0, of sample_deps ?u "schedule @ drain 2"] out0 by simp
  then show ?thesis
    using q undecodable_never_delivers[OF i1 out1] by blast
qed

text \<open>
  C4.  The claim has two halves.  The first holds: whether a cache write resolves or
  rejects changes nothing in any run.  The second does not: \<^verbatim>\<open>done\<close> is registered as
  \<^verbatim>\<open>then(done, done)\<close> on the write, so the count-down step of the task waits for the
  write to settle.  After the lookup of the only task has been rejected and the inline
  compute has succeeded, the write is in flight, the slot is still empty, \<^verbatim>\<open>toRun\<close> is
  still 1 and the completion callback has not been called.
\<close>

theorem result_waits_for_cache_write_counterexample:
  "computes (run sample_deps (constructor sample_deps (Options (Prim (VStr ''.cache'')) (WNum 0)))
      [sample_task ''B'' ''b = 2;''] [0]) = [0] \<and>
   pending (run sample_deps (constructor sample_deps (Options (Prim (VStr ''.cache'')) (WNum 0)))
      [sample_task ''B'' ''b = 2;''] [0]) 0 = Some (AwaitPut (Object [(''code'', Prim (VStr ''b = 2;''))])) \<and>
   results (run sample_deps (constructor sample_deps (Options (Prim (VStr ''.cache'')) (WNum 0)))
      [sample_task ''B'' ''b = 2;''] [0]) = [] \<and>
   toRun (run sample_deps (constructor sample_deps (Options (Prim (VStr ''.cache'')) (WNum 0)))
      [sample_task ''B'' ''b = 2;''] [0]) = 1 \<and>
   callbacks (run sample_deps (constructor sample_deps (Options (Prim (VStr ''.cache'')) (WNum 0)))
      [sample_task ''B'' ''b = 2;''] [0]) = []"
  by (simp add: run_defs sample_defs)

text \<open>
  C4, as amended.  A run does not depend on how the cache writes settle.  With a cache
  configured, when the worker answers for task \<open>i\<close> without an error, the write of the
  result under the task's key is issued as the answer arrives and the count-down step
  of the task waits for it: the answer leaves the slot empty and the completion
  callback uncalled, a recorded slot has its write among the writes issued, and the
  slot is recorded by no other event than the settling of that write.  While the write
  of task \<open>i\<close> is in flight, slot \<open>i\<close> is empty and the completion callback has not been
  called; when the write settles, either way, the result the worker gave is recorded
  at slot \<open>i\<close>.
\<close>

theorem cache_write_is_best_effort:
  "run (d\<lparr>cacache_put := put\<rparr>) u tasks schedule = run d u tasks schedule \<and>
   (i < length tasks \<and> pending (run d u tasks schedule) i = Some (AwaitPut v) \<longrightarrow>
      slot (results (run d u tasks schedule)) i = None \<and>
      callbacks (run d u tasks schedule) = [] \<and>
      outcome d u tasks i = Some v \<and>
      slot (results (run d u tasks (schedule @ [i]))) i = Some v) \<and>
   (i < length tasks \<and> truthy (cache u) \<and> goes_to_compute d u tasks i \<and> succeeds d u tasks i \<longrightarrow>
      ((\<exists>r. pending (run d u tasks schedule) i = Some (AwaitWorker r)) \<or>
       (pending (run d u tasks schedule) i = Some AwaitGet \<and> \<not> 0 < workers u) \<longrightarrow>
         pending (run d u tasks (schedule @ [i])) i =
           Some (AwaitPut (result_of (compute d u tasks i))) \<and>
         write_of d u tasks i \<in> set (writes (run d u tasks (schedule @ [i]))) \<and>
         slot (results (run d u tasks (schedule @ [i]))) i = None \<and>
         callbacks (run d u tasks (schedule @ [i])) = []) \<and>
      (slot (results (run d u tasks schedule)) i \<noteq> None \<longrightarrow>
         write_of d u tasks i \<in> set (writes (run d u tasks schedule))) \<and>
      (\<forall>j. slot (results (run d u tasks schedule)) i = None \<and>
           slot (results (run d u tasks (schedule @ [j]))) i \<noteq> None \<longrightarrow>
           j = i \<and>
           pending (run d u tasks schedule) i = Some (AwaitPut (result_of (compute d u tasks i)))))"
proof (intro conjI impI allI)
  show "run (d\<lparr>cacache_put := put\<rparr>) u tasks schedule = run d u tasks schedule"
    by (rule run_ignores_cacache_put)
next
  assume a: "i < length tasks \<and> pending (run d u tasks schedule) i = Some (AwaitPut v)"
  note pp = put_pending[where i = i and tasks = tasks and d = d and u = u
      and schedule = schedule and v = v]
  show "slot (results (run d u tasks schedule)) i = None" using a pp(1) by blast
  show "callbacks (run d u tasks schedule) = []" using a pp(2) by blast
  show "outcome d u tasks i = Some v" using a pp(3) by blast
  show "slot (results (run d u tasks (schedule @ [i]))) i = Some v" using a pp(4) by blast
next
  let ?s = "run d u tasks schedule"
  assume h: "i < length tasks \<and> truthy (cache u) \<and> goes_to_compute d u tasks i \<and>
      succeeds d u tasks i"
  then have i: "i < length tasks" and c: "truthy (cache u)"
    and gc: "goes_to_compute d u tasks i" and su: "succeeds d u tasks i" by simp_all
  have inv: "inv d u tasks (length tasks) ?s" by (rule run_inv)
  {
    assume p: "(\<exists>r. pending ?s i = Some (AwaitWorker r)) \<or>
               (pending ?s i = Some AwaitGet \<and> \<not> 0 < workers u)"
    note wi = write_issued[OF inv i c gc su p]
    have sl: "slot (results ?s) i = None"
      using p local_inv_pending[OF inv_local[OF inv i]] by blast
    then have "\<not> (\<forall>k<length tasks. slot (results ?s) k \<noteq> None)" using i by blast
    then have cb: "callbacks ?s = []" using inv_callbacks[OF inv] by simp
    show "pending (run d u tasks (schedule @ [i])) i =
        Some (AwaitPut (result_of (compute d u tasks i)))"
      using wi(1) by (simp add: run_append)
    show "write_of d u tasks i \<in> set (writes (run d u tasks (schedule @ [i])))"
      using wi(2) by (simp add: run_append)
    show "slot (results (run d u tasks (schedule @ [i]))) i = None"
      using wi(3) sl by (simp add: run_append)
    show "callbacks (run d u tasks (schedule @ [i])) = []"
      using wi(4) cb by (simp add: run_append)
  }
  show "write_of d u tasks i \<in> set (writes ?s)" if "slot (results ?s) i \<noteq> None"
    using write_before_record[OF i c gc su, of schedule] that by blast
  show "j = i" and "pending ?s i = Some (AwaitPut (result_of (compute d u tasks i)))"
    if "slot (results ?s) i = None \<and> slot (results (run d u tasks (schedule @ [j]))) i \<noteq> None" for j
    using recorded_by_settlement[OF inv i c gc su, of j] that by (simp_all add: run_append)
qed

theorem cache_write_is_best_effort_witness:
  "truthy (cache (constructor sample_deps (Options (Prim (VStr ''.cache'')) (WNum 2)))) \<and>
   goes_to_compute sample_deps (constructor sample_deps (Options (Prim (VStr ''.cache'')) (WNum 2)))
     [sample_task ''B'' ''b = 2;''] 0 \<and>
   succeeds sample_deps (constructor sample_deps (Options (Prim (VStr ''.cache'')) (WNum 2)))
     [sample_task ''B'' ''b = 2;''] 0 \<and>
   pending (run sample_deps (constructor sample_deps (Options (Prim (VStr ''.cache'')) (WNum 2)))
     [sample_task ''B'' ''b = 2;''] [0]) 0 \<noteq> None \<and>
   pending (run sample_deps (constructor sample_deps (Options (Prim (VStr ''.cache'')) (WNum 2)))
     [sample_task ''B'' ''b = 2;''] ([0] @ [0])) 0 =
     Some (AwaitPut (Object [(''code'', Prim (VStr ''b = 2;''))])) \<and>
   (Prim (VStr ''.cache''), ''B'', Some (JObj [(''code'', JStr ''b = 2;'')])) \<in>
     set (writes (run sample_deps (constructor sample_deps (Options (Prim (VStr ''.cache'')) (WNum 2)))
       [sample_task ''B'' ''b = 2;''] ([0] @ [0]))) \<and>
   callbacks (run sample_deps (constructor sample_deps (Options (Prim (VStr ''.cache'')) (WNum 2)))
     [sample_task ''B'' ''b = 2;''] ([0] @ [0])) = [] \<and>
   cacache_put sample_deps 0 (Prim (VStr ''.cache'')) ''B'' (Some (JObj [(''code'', JStr ''b = 2;'')])) = False \<and>
   slot (results (run sample_deps (constructor sample_deps (Options (Prim (VStr ''.cache'')) (WNum 2)))
     [sample_task ''B'' ''b = 2;''] ([0, 0] @ [0]))) 0 = Some (Object [(''code'', Prim (VStr ''b = 2;''))])"
proof -
  let ?u = "constructor sample_deps (Options (Prim (VStr ''.cache'')) (WNum 2))"
  let ?tasks = "[sample_task ''B'' ''b = 2;'']"
  let ?v = "Object [(''code'', Prim (VStr ''b = 2;''))]"
  have i: "0 < length ?tasks" by simp
  have c: "truthy (cache ?u)" by (simp add: run_defs)
  have gc: "goes_to_compute sample_deps ?u ?tasks 0"
    by (simp add: goes_to_compute_def run_defs sample_defs)
  have su: "succeeds sample_deps ?u ?tasks 0"
    by (simp add: succeeds_def run_defs sample_defs)
  have p: "pending (run sample_deps ?u ?tasks [0]) 0 =
      Some (AwaitWorker (request sample_deps (sample_task ''B'' ''b = 2;'')))"
    by (simp add: run_defs sample_defs)
  have r: "result_of (compute sample_deps ?u ?tasks 0) = ?v"
    by (simp add: run_defs sample_defs)
  have w: "write_of sample_deps ?u ?tasks 0 =
      (Prim (VStr ''.cache''), ''B'', Some (JObj [(''code'', JStr ''b = 2;'')]))"
    by (simp add: write_of_def run_defs sample_defs)
  have f: "cacache_put sample_deps 0 (Prim (VStr ''.cache'')) ''B''
      (Some (JObj [(''code'', JStr ''b = 2;'')])) = False"
    by (simp add: sample_defs)
  note T = cache_write_is_best_effort[where d = sample_deps and put = "cacache_put sample_deps"
      and u = ?u and tasks = ?tasks and i = 0]
  have issued: "pending (run sample_deps ?u ?tasks ([0] @ [0])) 0 = Some (AwaitPut ?v) \<and>
      write_of sample_deps ?u ?tasks 0 \<in> set (writes (run sample_deps ?u ?tasks ([0] @ [0]))) \<and>
      callbacks (run sample_deps ?u ?tasks ([0] @ [0])) = []"
    using T[where schedule = "[0]" and v = ?v] i c gc su p unfolding r by blast
  then have "pending (run sample_deps ?u ?tasks [0, 0]) 0 = Some (AwaitPut ?v)" by simp
  then have settled: "slot (results (run sample_deps ?u ?tasks ([0, 0] @ [0]))) 0 = Some ?v"
    using T[where schedule = "[0, 0]" and v = ?v] i by blast
  show ?thesis using c gc su p issued settled f unfolding w by simp
qed

text \<open>
  C5.  In every state of every run the completion callback has either not been called
  or been called once, with null as the error and one recorded outcome per task; no
  call passes a batch error or a partial array.  When the worker fails for task \<open>i\<close>
  with error \<open>e\<close>, slot \<open>i\<close> of the delivered array is the object \<^verbatim>\<open>{ error: e }\<close>.  The
  entry of a task depends on that task and on the replies to its own requests only:
  two batches that agree on task \<open>i\<close> deliver the same entry \<open>i\<close>, whatever the other
  tasks are and however they fail.  And a failing task does not keep the batch from
  completing: without a cache, or when every stored entry that is read deserialises,
  every schedule continued until nothing is in flight has called the callback once,
  with \<^verbatim>\<open>{ error: e }\<close> at the slot of each task the worker failed for and the data
  the worker gave at the slot of each task it succeeded for.
\<close>

theorem compute_errors_stay_in_their_slot:
  "(callbacks (run d u tasks schedule) = [] \<or>
    (\<exists>rs. callbacks (run d u tasks schedule) = [(null_val, rs)] \<and> length rs = length tasks \<and>
          (\<forall>i<length tasks. rs ! i \<noteq> None))) \<and>
   (\<forall>c \<in> set (callbacks (run d u tasks schedule)). \<forall>i<length tasks. \<forall>e.
      goes_to_compute d u tasks i \<and> compute d u tasks i = Inl e \<longrightarrow>
        snd c ! i = Some (Object [(''error'', Object e)])) \<and>
   (\<forall>c \<in> set (callbacks (run d u tasks schedule)).
    \<forall>c' \<in> set (callbacks (run d' u tasks' schedule')). \<forall>i.
      i < length tasks \<and> i < length tasks' \<and> agree_on d tasks d' tasks' i \<longrightarrow> snd c ! i = snd c' ! i) \<and>
   (\<not> truthy (cache u) \<or> (\<forall>i<length tasks. outcome d u tasks i \<noteq> None) \<longrightarrow>
      (\<exists>rs. callbacks (run d u tasks (schedule @ drain (length tasks))) = [(null_val, rs)] \<and>
         length rs = length tasks \<and>
         (\<forall>i<length tasks.
            (\<forall>e. goes_to_compute d u tasks i \<and> compute d u tasks i = Inl e \<longrightarrow>
               rs ! i = Some (Object [(''error'', Object e)])) \<and>
            (\<forall>data. goes_to_compute d u tasks i \<and> compute d u tasks i = Inr data \<longrightarrow>
               rs ! i = Some (Object data)))))"
proof -
  have completes: "\<exists>rs. callbacks (run d u tasks (schedule @ drain (length tasks))) = [(null_val, rs)] \<and>
         length rs = length tasks \<and>
         (\<forall>i<length tasks.
            (\<forall>e. goes_to_compute d u tasks i \<and> compute d u tasks i = Inl e \<longrightarrow>
               rs ! i = Some (Object [(''error'', Object e)])) \<and>
            (\<forall>data. goes_to_compute d u tasks i \<and> compute d u tasks i = Inr data \<longrightarrow>
               rs ! i = Some (Object data)))"
    if h: "\<not> truthy (cache u) \<or> (\<forall>i<length tasks. outcome d u tasks i \<noteq> None)"
  proof -
    let ?rs = "map (outcome d u tasks) [0..<length tasks]"
    have all: "\<forall>i<length tasks. outcome d u tasks i \<noteq> None"
      using h by (auto simp: outcome_def)
    have q: "quiescent tasks (run d u tasks (schedule @ drain (length tasks)))"
      by (rule run_drain_quiescent)
    have cb: "callbacks (run d u tasks (schedule @ drain (length tasks))) = [(null_val, ?rs)]"
      using quiescent_callbacks[OF q] all by simp
    have "?rs ! i = Some (result_of (compute d u tasks i))"
      if "i < length tasks" "goes_to_compute d u tasks i" for i
      using that outcome_compute[of d u tasks i] by simp
    then have "\<forall>i<length tasks.
            (\<forall>e. goes_to_compute d u tasks i \<and> compute d u tasks i = Inl e \<longrightarrow>
               ?rs ! i = Some (Object [(''error'', Object e)])) \<and>
            (\<forall>data. goes_to_compute d u tasks i \<and> compute d u tasks i = Inr data \<longrightarrow>
               ?rs ! i = Some (Object data))"
      by (simp add: result_of_def)
    then show ?thesis using cb by (intro exI[of _ ?rs]) simp
  qed
  show ?thesis
proof (intro conjI ballI allI impI)
  show "callbacks (run d u tasks schedule) = [] \<or>
    (\<exists>rs. callbacks (run d u tasks schedule) = [(null_val, rs)] \<and> length rs = length tasks \<and>
          (\<forall>i<length tasks. rs ! i \<noteq> None))"
  proof (cases "callbacks (run d u tasks schedule) = []")
    case True then show ?thesis by simp
  next
    case False
    then have eq: "callbacks (run d u tasks schedule) =
        [(null_val, map (outcome d u tasks) [0..<length tasks])]"
      using callbacks_shape[of d u tasks schedule] by simp
    then have "(null_val, map (outcome d u tasks) [0..<length tasks])
        \<in> set (callbacks (run d u tasks schedule))" by simp
    then have "\<forall>i<length tasks. outcome d u tasks i \<noteq> None" by (rule delivered(2))
    then show ?thesis using eq by simp
  qed
next
  fix c i e
  assume c: "c \<in> set (callbacks (run d u tasks schedule))" and i: "i < length tasks"
    and h: "goes_to_compute d u tasks i \<and> compute d u tasks i = Inl e"
  have "outcome d u tasks i = Some (result_of (compute d u tasks i))"
    using h by (intro outcome_compute) simp
  then show "snd c ! i = Some (Object [(''error'', Object e)])"
    using slot_delivered[OF c i] h by (simp add: result_of_def)
next
  fix c c' i
  assume c: "c \<in> set (callbacks (run d u tasks schedule))"
    and c': "c' \<in> set (callbacks (run d' u tasks' schedule'))"
    and h: "i < length tasks \<and> i < length tasks' \<and> agree_on d tasks d' tasks' i"
  have "snd c ! i = outcome d u tasks i" using slot_delivered[OF c] h by blast
  moreover have "snd c' ! i = outcome d' u tasks' i" using slot_delivered[OF c'] h by blast
  moreover have "outcome d' u tasks' i = outcome d u tasks i"
    using h by (intro agree_on_outcome) simp
  ultimately show "snd c ! i = snd c' ! i" by simp
next
  assume "\<not> truthy (cache u) \<or> (\<forall>i<length tasks. outcome d u tasks i \<noteq> None)"
  then show "\<exists>rs. callbacks (run d u tasks (schedule @ drain (length tasks))) = [(null_val, rs)] \<and>
         length rs = length tasks \<and>
         (\<forall>i<length tasks.
            (\<forall>e. goes_to_compute d u tasks i \<and> compute d u tasks i = Inl e \<longrightarrow>
               rs ! i = Some (Object [(''error'', Object e)])) \<and>
            (\<forall>data. goes_to_compute d u tasks i \<and> compute d u tasks i = Inr data \<longrightarrow>
               rs ! i = Some (Object data)))"
    by (rule completes)
qed
qed



theorem compute_errors_stay_in_their_slot_witness:
  "\<not> truthy (cache (constructor sample_deps (Options undefined_val (WNum 2)))) \<and>
   goes_to_compute sample_deps (constructor sample_deps (Options undefined_val (WNum 2))) failing_batch 1 \<and>
   compute sample_deps (constructor sample_deps (Options undefined_val (WNum 2))) failing_batch 1
     = Inl [(''message'', Prim (VStr ''Unexpected token''))] \<and>
   (\<exists>rs. callbacks (run sample_deps (constructor sample_deps (Options undefined_val (WNum 2)))
            failing_batch ([2, 1, 0] @ drain (length failing_batch))) = [(null_val, rs)] \<and>
         length rs = length failing_batch \<and>
         rs ! 1 = Some (Object [(''error'', Object [(''message'', Prim (VStr ''Unexpected token''))])])) \<and>
   callbacks (run sample_deps (constructor sample_deps (Options undefined_val (WNum 2)))
      failing_batch [2, 1, 0]) =
     [(null_val,
       [Some (Object [(''code'', Prim (VStr ''a = 1;''))]),
        Some (Object [(''error'', Object [(''message'', Prim (VStr ''Unexpected token''))])]),
        Some (Object [(''code'', Prim (VStr ''c = 3;''))])])] \<and>
   agree_on sample_deps failing_batch sample_deps (failing_batch[1 := sample_task ''B'' ''b = 2;'']) 2 \<and>
   snd (hd (callbacks (run sample_deps (constructor sample_deps (Options undefined_val (WNum 2)))
      failing_batch [2, 1, 0]))) ! 2 =
   snd (hd (callbacks (run sample_deps (constructor sample_deps (Options undefined_val (WNum 2)))
      (failing_batch[1 := sample_task ''B'' ''b = 2;'']) [0, 1, 2]))) ! 2"
proof -
  let ?u = "constructor sample_deps (Options undefined_val (WNum 2))"
  let ?other = "failing_batch[1 := sample_task ''B'' ''b = 2;'']"
  let ?c = "(null_val,
       [Some (Object [(''code'', Prim (VStr ''a = 1;''))]),
        Some (Object [(''error'', Object [(''message'', Prim (VStr ''Unexpected token''))])]),
        Some (Object [(''code'', Prim (VStr ''c = 3;''))])])"
  let ?c' = "(null_val,
       [Some (Object [(''code'', Prim (VStr ''a = 1;''))]),
        Some (Object [(''code'', Prim (VStr ''b = 2;''))]),
        Some (Object [(''code'', Prim (VStr ''c = 3;''))])])"
  have n: "\<not> truthy (cache ?u)" by (simp add: run_defs)
  have g: "goes_to_compute sample_deps ?u failing_batch 1"
    by (simp add: goes_to_compute_def run_defs sample_defs)
  have e: "compute sample_deps ?u failing_batch 1 = Inl [(''message'', Prim (VStr ''Unexpected token''))]"
    by (simp add: run_defs sample_defs)
  have cb: "callbacks (run sample_deps ?u failing_batch [2, 1, 0]) = [?c]"
    by (simp add: run_defs sample_defs numeral_2_eq_2)
  have cb': "callbacks (run sample_deps ?u ?other [0, 1, 2]) = [?c']"
    by (simp add: run_defs sample_defs)
  have a: "agree_on sample_deps failing_batch sample_deps ?other 2"
    by (simp add: agree_on_def sample_defs)
  have l: "1 < length failing_batch" "2 < length failing_batch" "2 < length ?other"
    by (simp_all add: sample_defs)
  note T = compute_errors_stay_in_their_slot[where d = sample_deps and u = ?u
        and tasks = failing_batch and schedule = "[2, 1, 0]" and d' = sample_deps and tasks' = ?other
        and schedule' = "[0, 1, 2]"]
  note iso = T[THEN conjunct2, THEN conjunct2, THEN conjunct1, unfolded cb cb', rule_format]
  note fin = T[THEN conjunct2, THEN conjunct2, THEN conjunct2, rule_format]
  have same: "snd ?c ! 2 = snd ?c' ! 2"
    by (rule iso[of ?c ?c' 2]) (use a l in simp_all)
  obtain rs where rs: "callbacks (run sample_deps ?u failing_batch
        ([2, 1, 0] @ drain (length failing_batch))) = [(null_val, rs)]"
    and len: "length rs = length failing_batch"
    and ent: "\<forall>i<length failing_batch.
        (\<forall>e. goes_to_compute sample_deps ?u failing_batch i \<and>
             compute sample_deps ?u failing_batch i = Inl e \<longrightarrow>
             rs ! i = Some (Object [(''error'', Object e)])) \<and>
        (\<forall>data. goes_to_compute sample_deps ?u failing_batch i \<and>
             compute sample_deps ?u failing_batch i = Inr data \<longrightarrow>
             rs ! i = Some (Object data))"
    using fin n by blast
  have "rs ! 1 = Some (Object [(''error'', Object [(''message'', Prim (VStr ''Unexpected token''))])])"
    using ent l(1) g e by blast
  then have ex: "\<exists>rs. callbacks (run sample_deps ?u failing_batch
        ([2, 1, 0] @ drain (length failing_batch))) = [(null_val, rs)] \<and>
      length rs = length failing_batch \<and>
      rs ! 1 = Some (Object [(''error'', Object [(''message'', Prim (VStr ''Unexpected token''))])])"
    using rs len by blast
  show ?thesis using n g e a ex same unfolding cb cb' by simp
qed




text \<open>
  C8.  The worker passes the whole task object to \<^verbatim>\<open>JSON.stringify\<close>; nothing in
  \<^verbatim>\<open>index.js\<close> removes the cache key.  With an encoder that rewrites only functions and
  regular expressions, the request in flight for a task with key \<^verbatim>\<open>A\<close> has the member
  \<^verbatim>\<open>cacheKey\<close>.
\<close>

theorem worker_request_holds_cache_key_counterexample:
  "pending (run sample_deps (constructor sample_deps (Options undefined_val (WNum 2)))
      [sample_task ''A'' ''a = 1;''] []) 0 =
   Some (AwaitWorker (Some (JObj
     [(''cacheKey'', JStr ''A''), (''file'', JStr ''main.js''), (''input'', JStr ''a = 1;''),
      (''commentsFile'', JBool False),
      (''uglifyOptions'', JObj [(''output'', JObj [(''comments'', JStr ''^!'')])])])))"
  by (simp add: run_defs sample_defs)

text \<open>
  C8, as amended.  A request to the farm exists only with a positive worker count, and
  it is the serialisation of the entire task object under the encoder.  When the
  encoder leaves the task object and the key string as they are, the request starts
  with the member \<^verbatim>\<open>cacheKey\<close>; the request has no such member only when the encoder
  itself answers undefined for it.
\<close>

theorem worker_request_is_whole_task:
  assumes "i < length tasks" and "pending (run d u tasks schedule) i = Some (AwaitWorker r)"
  shows "0 < workers u \<and> r = JSON_stringify (encode d) (task_object (tasks ! i)) \<and>
    (encode d [] (task_object (tasks ! i)) = Same \<and>
     encode d ''cacheKey'' (Prim (VStr (cacheKey (tasks ! i)))) = Same \<longrightarrow>
       (\<exists>members. r = Some (JObj ((''cacheKey'', JStr (cacheKey (tasks ! i))) # members)))) \<and>
    (encode d [] (task_object (tasks ! i)) = Same \<and>
     encode d ''cacheKey'' (Prim (VStr (cacheKey (tasks ! i)))) = Swap VUndefined \<longrightarrow>
       (\<exists>members. r = Some (JObj members) \<and> ''cacheKey'' \<notin> fst ` set members))"
proof -
  have r: "r = request d (tasks ! i)" and w: "0 < workers u"
    using worker_request[OF assms] by blast+
  show ?thesis
    using w r request_with_cacheKey[of d "tasks ! i"] request_without_cacheKey[of d "tasks ! i"]
    by (simp add: request_def)
qed

theorem worker_request_is_whole_task_witness:
  "0 < length [sample_task ''A'' ''a = 1;''] \<and>
   encode sample_deps [] (task_object ([sample_task ''A'' ''a = 1;''] ! 0)) = Same \<and>
   encode sample_deps ''cacheKey'' (Prim (VStr (cacheKey ([sample_task ''A'' ''a = 1;''] ! 0)))) = Same \<and>
   (\<exists>r members.
      pending (run sample_deps (constructor sample_deps (Options undefined_val (WNum 2)))
        [sample_task ''A'' ''a = 1;''] []) 0 = Some (AwaitWorker r) \<and>
      r = Some (JObj ((''cacheKey'', JStr ''A'') # members)))"
proof -
  let ?u = "constructor sample_deps (Options undefined_val (WNum 2))"
  let ?tasks = "[sample_task ''A'' ''a = 1;'']"
  let ?r = "Some (JObj
     [(''cacheKey'', JStr ''A''), (''file'', JStr ''main.js''), (''input'', JStr ''a = 1;''),
      (''commentsFile'', JBool False),
      (''uglifyOptions'', JObj [(''output'', JObj [(''comments'', JStr ''^!'')])])])"
  have i: "0 < length ?tasks" by simp
  have p: "pending (run sample_deps ?u ?tasks []) 0 = Some (AwaitWorker ?r)"
    by (simp add: run_defs sample_defs)
  have e1: "encode sample_deps [] (task_object (?tasks ! 0)) = Same"
    by (simp add: sample_defs task_object_def)
  have e2: "encode sample_deps ''cacheKey'' (Prim (VStr (cacheKey (?tasks ! 0)))) = Same"
    by (simp add: sample_defs)
  have k: "cacheKey (?tasks ! 0) = ''A''" by (simp add: sample_defs)
  have "\<exists>members. ?r = Some (JObj ((''cacheKey'', JStr (cacheKey (?tasks ! 0))) # members))"
    using worker_request_is_whole_task[OF i p] e1 e2 by blast
  then show ?thesis using i e1 e2 p unfolding k by blast
qed

text \<open>
  C9.  A worker count of -3, in options that a schema admitting integer worker counts
  accepts, passes the plugin's validation; the constructor of the dispatcher then
  returns a dispatcher whose \<^verbatim>\<open>workers\<close> field is -3, and a batch run under it
  completes.
\<close>

theorem negative_worker_count_is_accepted_counterexample:
  "sample_schema (Options undefined_val (WNum (- 3))) \<and>
   plugin_dispatcher sample_schema sample_deps (Options undefined_val (WNum (- 3))) =
     Inr \<lparr> cache = undefined_val, workers = - 3 \<rparr> \<and>
   constructor sample_deps (Options undefined_val (WNum (- 3))) = \<lparr> cache = undefined_val, workers = - 3 \<rparr> \<and>
   callbacks (run sample_deps (constructor sample_deps (Options undefined_val (WNum (- 3)))) sample_batch []) =
     [(null_val,
       [Some (Object [(''code'', Prim (VStr ''a = 1;''))]),
        Some (Object [(''code'', Prim (VStr ''b = 2;''))]),
        Some (Object [(''error'', Object [(''message'', Prim (VStr ''Unexpected token''))])])])]"
  by (simp add: run_defs sample_defs plugin_dispatcher_def UglifyJsPlugin_constructor_def)

text \<open>
  C9, as amended.  A configuration with a negative worker count fails fast, before any
  dispatcher exists or batch runs, exactly when the plugin's validation of the options
  rejects it.  The constructor of the dispatcher does not check the worker count: when
  the validation accepts the options, the dispatcher is built from them with the
  negative count stored as it is, and every run under it is the run under a worker
  count of 0 with the same cache option, that is, inline.
\<close>

theorem negative_worker_count_runs_inline:
  assumes "n < 0"
  shows "(\<not> accepts (Options c (WNum n)) \<longrightarrow>
            plugin_dispatcher accepts d (Options c (WNum n)) = Inl ValidationError) \<and>
         (accepts (Options c (WNum n)) \<longrightarrow>
            plugin_dispatcher accepts d (Options c (WNum n)) =
              Inr (constructor d (Options c (WNum n)))) \<and>
         workers (constructor d (Options c (WNum n))) = n \<and>
         cache (constructor d (Options c (WNum n))) = cache (constructor d (Options c (WNum 0))) \<and>
         run d (constructor d (Options c (WNum n))) tasks schedule =
         run d (constructor d (Options c (WNum 0))) tasks schedule"
proof -
  have w: "workers (constructor d (Options c (WNum n))) = n"
    using assms by (simp add: constructor_number)
  have w0: "\<not> 0 < workers (constructor d (Options c (WNum 0)))"
    by (simp add: constructor_number)
  have c: "cache (constructor d (Options c (WNum n))) = cache (constructor d (Options c (WNum 0)))"
    by (simp add: constructor_number)
  have r: "run d (constructor d (Options c (WNum n))) tasks schedule =
        run d (constructor d (Options c (WNum 0))) tasks schedule"
    using c by (rule run_worker_count_sign) (use w w0 assms in simp)
  have p1: "\<not> accepts (Options c (WNum n)) \<longrightarrow>
      plugin_dispatcher accepts d (Options c (WNum n)) = Inl ValidationError"
    by (simp add: plugin_dispatcher_def UglifyJsPlugin_constructor_def)
  have p2: "accepts (Options c (WNum n)) \<longrightarrow>
      plugin_dispatcher accepts d (Options c (WNum n)) = Inr (constructor d (Options c (WNum n)))"
    by (simp add: plugin_dispatcher_def UglifyJsPlugin_constructor_def)
  show ?thesis using p1 p2 w c r by blast
qed

theorem negative_worker_count_runs_inline_witness:
  "(- 3 :: int) < 0 \<and>
   sample_schema (Options undefined_val (WNum (- 3))) \<and>
   plugin_dispatcher sample_schema sample_deps (Options undefined_val (WNum (- 3))) =
     Inr (constructor sample_deps (Options undefined_val (WNum (- 3)))) \<and>
   \<not> strict_schema (Options undefined_val (WNum (- 3))) \<and>
   plugin_dispatcher strict_schema sample_deps (Options undefined_val (WNum (- 3))) =
     Inl ValidationError \<and>
   workers (constructor sample_deps (Options undefined_val (WNum (- 3)))) = - 3 \<and>
   run sample_deps (constructor sample_deps (Options undefined_val (WNum (- 3)))) sample_batch [] =
   run sample_deps (constructor sample_deps (Options undefined_val (WNum 0))) sample_batch []"
proof -
  have h: "(- 3 :: int) < 0" by simp
  have a: "sample_schema (Options undefined_val (WNum (- 3)))" by simp
  have b: "\<not> strict_schema (Options undefined_val (WNum (- 3)))" by simp
  note T = negative_worker_count_runs_inline[OF h, where d = sample_deps and c = undefined_val
      and tasks = sample_batch and schedule = "[]"]
  show ?thesis
    using T[where accepts = sample_schema] T[where accepts = strict_schema] h a b
    by blast
qed

text \<open>
  C10.  The argument \<^verbatim>\<open>true\<close> gives the dispatcher that \<^verbatim>\<open>{ cache: true, workers: true }\<close>
  gives: the cache location is what \<^verbatim>\<open>findCacheDir\<close> returns and the worker count is
  the CPU count minus one.  The argument \<^verbatim>\<open>false\<close>, and no argument, give a falsy cache
  and the worker count \<^verbatim>\<open>Math.min(0, cpus - 1)\<close>, which is 0 on a host that reports at
  least one CPU and never positive; the batch is then computed inline: when
  \<^verbatim>\<open>runTasks\<close> returns, the completion callback has been called with the result of
  \<open>minify\<close> for each task.
\<close>

theorem boolean_parallel_argument:
  "constructor d (Boolean True) = constructor d (Options (Prim (VBool True)) (WBool True)) \<and>
   cache (constructor d (Boolean True)) = findCacheDir d \<and>
   workers (constructor d (Boolean True)) = int (cpus d) - 1 \<and>
   (\<forall>p \<in> {Boolean False, NoArgument}.
      \<not> truthy (cache (constructor d p)) \<and>
      workers (constructor d p) = min 0 (int (cpus d) - 1) \<and>
      (0 < cpus d \<longrightarrow> workers (constructor d p) = 0) \<and>
      callbacks (runTasks d (constructor d p) tasks) =
        [(null_val, map (\<lambda>t. Some (result_of (minify d t))) tasks)])"
proof (intro conjI ballI)
  show "constructor d (Boolean True) = constructor d (Options (Prim (VBool True)) (WBool True))"
    by (simp add: constructor_true constructor_true_options)
  show "cache (constructor d (Boolean True)) = findCacheDir d" by (simp add: constructor_true)
  show "workers (constructor d (Boolean True)) = int (cpus d) - 1" by (simp add: constructor_true)
next
  fix p assume "p \<in> {Boolean False, NoArgument}"
  then have c: "\<not> truthy (cache (constructor d p))"
    and w: "workers (constructor d p) = min 0 (int (cpus d) - 1)"
    by (auto simp: constructor_false constructor_no_argument)
  let ?u = "constructor d p"
  have nw: "\<not> 0 < workers ?u" using w by simp
  show "\<not> truthy (cache ?u)" by (rule c)
  show "workers ?u = min 0 (int (cpus d) - 1)" by (rule w)
  show "0 < cpus d \<longrightarrow> workers ?u = 0" using w by simp
  have q: "quiescent tasks (run d ?u tasks [])"
    using runTasks_inline_quiescent[OF c nw] by (simp add: run_def)
  have o: "outcome d ?u tasks i = Some (result_of (minify d (tasks ! i)))" for i
    using c nw by (simp add: outcome_def compute_def)
  have "map (outcome d ?u tasks) [0..<length tasks] = map (\<lambda>t. Some (result_of (minify d t))) tasks"
    by (rule nth_equalityI) (simp_all add: o)
  then show "callbacks (runTasks d ?u tasks) = [(null_val, map (\<lambda>t. Some (result_of (minify d t))) tasks)]"
    using quiescent_callbacks[OF q] o by (simp add: run_def)
qed

theorem boolean_parallel_argument_witness:
  "Boolean False \<in> {Boolean False, NoArgument} \<and> 0 < cpus sample_deps \<and>
   constructor sample_deps (Boolean True) =
     \<lparr> cache = Prim (VStr ''node_modules/.cache/uglifyjs-webpack-plugin''), workers = 3 \<rparr> \<and>
   constructor sample_deps (Boolean False) = \<lparr> cache = Prim (VBool False), workers = 0 \<rparr>"
proof -
  have h1: "Boolean False \<in> {Boolean False, NoArgument}" by simp
  have h2: "0 < cpus sample_deps" by (simp add: sample_defs)
  have c: "cache (constructor sample_deps (Boolean False)) = Prim (VBool False)"
    by (simp add: constructor_false)
  note T = boolean_parallel_argument[of sample_deps sample_batch]
  have "workers (constructor sample_deps (Boolean False)) = 0"
    using T h1 h2 by blast
  moreover have "cache (constructor sample_deps (Boolean True)) = findCacheDir sample_deps"
    and "workers (constructor sample_deps (Boolean True)) = int (cpus sample_deps) - 1"
    using T by blast+
  ultimately show ?thesis using h1 h2 c by (simp add: sample_defs uglify.equality)
qed

end
